theory Spec2Isabelle
  imports Main "HOL-Library.AList"
begin

section \<open>Text, character classes and string helpers\<close>

text \<open>
  A Python \<open>str\<close> is a sequence of code points. The embedding covers text whose code
  points are below 256, so that a \<^typ>\<open>char\<close> is one code point and \<^const>\<open>length\<close>
  is Python's \<open>len\<close>. Python's unbounded \<open>int\<close> is \<^typ>\<open>int\<close>; \<open>int(num)\<close> is
  taken on digit runs below the interpreter's limit on the length of a decimal string.
\<close>

definition NL :: char where
  "NL = CHR 0x0A"

text \<open>
  \<open>\s\<close> of \<open>re\<close> on a \<open>str\<close> pattern, \<open>str.split()\<close> and \<open>str.strip()\<close> all use the
  interpreter's whitespace table; below 256 it holds the code points 9 to 13, 28 to 31,
  32, 133 and 160.
\<close>

definition isspace :: "char \<Rightarrow> bool" where
  "isspace c = (c \<in> set [CHR 0x09, CHR 0x0A, CHR 0x0B, CHR 0x0C, CHR 0x0D,
                          CHR 0x1C, CHR 0x1D, CHR 0x1E, CHR 0x1F, CHR 0x20,
                          CHR 0x85, CHR 0xA0])"

text \<open>\<open>\d\<close>: the decimal digits; below 256 these are \<open>0\<close> to \<open>9\<close>.\<close>

definition isdigit :: "char \<Rightarrow> bool" where
  "isdigit c = (c \<in> set ''0123456789'')"

text \<open>\<open>int(num)\<close> on a run of decimal digits.\<close>

definition digit_val :: "char \<Rightarrow> int" where
  "digit_val c = int (of_char c) - 48"

definition py_int :: "string \<Rightarrow> int" where
  "py_int ds = foldl (\<lambda>a c. 10 * a + digit_val c) 0 ds"

text \<open>\<open>text.split()\<close>: the maximal runs of non-whitespace, in order.\<close>

fun split_acc :: "string \<Rightarrow> string \<Rightarrow> string list" where
  "split_acc cur [] = (if cur = [] then [] else [cur])"
| "split_acc cur (c # r) =
     (if isspace c then (if cur = [] then split_acc [] r else cur # split_acc [] r)
      else split_acc (cur @ [c]) r)"

definition split_ws :: "string \<Rightarrow> string list" where
  "split_ws s = split_acc [] s"

text \<open>\<open>sep.join(xs)\<close>.\<close>

fun join_str :: "string \<Rightarrow> string list \<Rightarrow> string" where
  "join_str sep [] = []"
| "join_str sep [x] = x"
| "join_str sep (x # y # xs) = x @ sep @ join_str sep (y # xs)"

text \<open>\<open>' '.join(text.split())\<close>, the normalisation of lines 42 and 58.\<close>

definition clean_text :: "string \<Rightarrow> string" where
  "clean_text t = join_str '' '' (split_ws t)"

text \<open>\<open>s.strip()\<close>.\<close>

definition strip :: "string \<Rightarrow> string" where
  "strip s = rev (dropWhile isspace (rev (dropWhile isspace s)))"

text \<open>\<open>content.split('\n\n')\<close>: non-overlapping separators from the left, empty pieces kept.\<close>

fun split_nn :: "string \<Rightarrow> string \<Rightarrow> string list" where
  "split_nn cur [] = [cur]"
| "split_nn cur [c] = [cur @ [c]]"
| "split_nn cur (c # d # r) =
     (if c = NL \<and> d = NL then cur # split_nn [] r else split_nn (cur @ [c]) (d # r))"

section \<open>The numbering pattern\<close>

text \<open>
  Line 35: \<^verbatim>\<open>(\d+)\.\s+(.+?)(?=\n\d+\.\s+|\Z)\<close> with \<open>re.DOTALL\<close>. Each part of the
  pattern is one function, tried in the order of the backtracking matcher: a greedy
  \<open>+\<close> first takes one more character and falls back to what follows it in the
  pattern; the lazy \<open>+?\<close> first tries what follows and takes one more character when
  that fails.
\<close>

text \<open>The lookahead \<^verbatim>\<open>\n\d+\.\s+\<close>, part by part from the right.\<close>

fun look_space :: "string \<Rightarrow> bool" where
  "look_space [] = False"
| "look_space (c # r) = isspace c"

fun look_dot :: "string \<Rightarrow> bool" where
  "look_dot [] = False"
| "look_dot (c # r) = (c = CHR ''.'' \<and> look_space r)"

fun look_digits :: "string \<Rightarrow> bool" where
  "look_digits [] = False"
| "look_digits (c # r) = (isdigit c \<and> (look_digits r \<or> look_dot r))"

fun run_start :: "string \<Rightarrow> bool" where
  "run_start [] = False"
| "run_start (c # r) = (c = NL \<and> look_digits r)"

text \<open>\<^verbatim>\<open>(?=\n\d+\.\s+|\Z)\<close>: the first alternative, then the end of the text.\<close>

definition lookahead :: "string \<Rightarrow> bool" where
  "lookahead s = (run_start s \<or> s = [])"

text \<open>
  \<^verbatim>\<open>(.+?)\<close> followed by the lookahead: \<open>acc\<close> is the text taken so far. The result
  is the captured text and the unconsumed rest.
\<close>

fun lazy_text :: "string \<Rightarrow> string \<Rightarrow> (string \<times> string) option" where
  "lazy_text acc [] = (if lookahead [] then Some (acc, []) else None)"
| "lazy_text acc (c # r) =
     (if lookahead (c # r) then Some (acc, c # r) else lazy_text (acc @ [c]) r)"

fun text_then_look :: "string \<Rightarrow> (string \<times> string) option" where
  "text_then_look [] = None"
| "text_then_look (c # r) = lazy_text [c] r"

text \<open>\<^verbatim>\<open>\s+\<close> followed by the rest of the pattern.\<close>

fun space_then_text :: "string \<Rightarrow> (string \<times> string) option" where
  "space_then_text [] = None"
| "space_then_text (c # r) =
     (if isspace c
      then (case space_then_text r of Some x \<Rightarrow> Some x | None \<Rightarrow> text_then_look r)
      else None)"

text \<open>\<^verbatim>\<open>\.\<close> followed by the rest of the pattern.\<close>

fun dot_then :: "string \<Rightarrow> (string \<times> string) option" where
  "dot_then [] = None"
| "dot_then (c # r) = (if c = CHR ''.'' then space_then_text r else None)"

text \<open>
  \<^verbatim>\<open>(\d+)\<close> followed by the rest of the pattern: \<open>num\<close> is the digits taken so far.
  The result is the number, the text and the unconsumed rest.
\<close>

fun digits_then :: "string \<Rightarrow> string \<Rightarrow> (string \<times> string \<times> string) option" where
  "digits_then num [] = None"
| "digits_then num (c # r) =
     (if isdigit c
      then (case digits_then (num @ [c]) r of
              Some x \<Rightarrow> Some x
            | None \<Rightarrow> map_option (Pair (num @ [c])) (dot_then r))
      else None)"

text \<open>One attempt of the whole pattern at the start of \<open>s\<close>.\<close>

definition match_at :: "string \<Rightarrow> (string \<times> string \<times> string) option" where
  "match_at s = digits_then [] s"

lemma lazy_text_suffix:
  "lazy_text acc s = Some (t, rest) \<Longrightarrow> length rest \<le> length s"
proof (induction s arbitrary: acc)
  case Nil
  then show ?case by (simp split: if_splits)
next
  case (Cons c r)
  show ?case
  proof (cases "lookahead (c # r)")
    case True
    with Cons.prems show ?thesis by simp
  next
    case False
    with Cons.prems have "lazy_text (acc @ [c]) r = Some (t, rest)" by simp
    from Cons.IH [OF this] show ?thesis by simp
  qed
qed

lemma text_then_look_suffix:
  "text_then_look s = Some (t, rest) \<Longrightarrow> length rest < length s"
proof (cases s)
  case Nil
  then show "text_then_look s = Some (t, rest) \<Longrightarrow> ?thesis" by simp
next
  case (Cons c r)
  assume "text_then_look s = Some (t, rest)"
  with Cons have "lazy_text [c] r = Some (t, rest)" by simp
  from lazy_text_suffix [OF this] Cons show ?thesis by simp
qed

lemma space_then_text_suffix:
  "space_then_text s = Some (t, rest) \<Longrightarrow> length rest < length s"
proof (induction s)
  case Nil
  then show ?case by simp
next
  case (Cons c r)
  from Cons.prems have sp: "isspace c" by (simp split: if_splits)
  show ?case
  proof (cases "space_then_text r")
    case None
    with Cons.prems sp have "text_then_look r = Some (t, rest)" by simp
    from text_then_look_suffix [OF this] show ?thesis by simp
  next
    case (Some x)
    with Cons.prems sp have "space_then_text r = Some (t, rest)" by simp
    from Cons.IH [OF this] show ?thesis by simp
  qed
qed

lemma dot_then_suffix:
  "dot_then s = Some (t, rest) \<Longrightarrow> length rest < length s"
proof (cases s)
  case Nil
  then show "dot_then s = Some (t, rest) \<Longrightarrow> ?thesis" by simp
next
  case (Cons c r)
  assume "dot_then s = Some (t, rest)"
  with Cons have "space_then_text r = Some (t, rest)" by (simp split: if_splits)
  from space_then_text_suffix [OF this] Cons show ?thesis by simp
qed

lemma digits_then_suffix:
  "digits_then num s = Some (n, t, rest) \<Longrightarrow> length rest < length s"
proof (induction s arbitrary: num)
  case Nil
  then show ?case by simp
next
  case (Cons c r)
  from Cons.prems have dg: "isdigit c" by (simp split: if_splits)
  show ?case
  proof (cases "digits_then (num @ [c]) r")
    case None
    with Cons.prems dg have "dot_then r = Some (t, rest)" by auto
    from dot_then_suffix [OF this] show ?thesis by simp
  next
    case (Some x)
    with Cons.prems dg have "digits_then (num @ [c]) r = Some (n, t, rest)" by simp
    from Cons.IH [OF this] show ?thesis by simp
  qed
qed

lemma match_at_suffix:
  "match_at s = Some (n, t, rest) \<Longrightarrow> length rest < length s"
  unfolding match_at_def by (rule digits_then_suffix)

text \<open>
  \<open>re.findall\<close>: the pattern is tried at each position from the left; after a match
  the search goes on where the match ended. A match of this pattern is never empty.
\<close>

function findall :: "string \<Rightarrow> (string \<times> string) list" where
  "findall s =
     (case match_at s of
        Some (num, text, rest) \<Rightarrow> (num, text) # findall rest
      | None \<Rightarrow> (case s of [] \<Rightarrow> [] | c # r \<Rightarrow> findall r))"
  by pat_completeness auto
termination
  by (relation "measure length") (auto dest: match_at_suffix)

declare findall.simps [simp del]

section \<open>Paragraph extraction\<close>

text \<open>
  A Python \<open>dict\<close> keeps its keys in insertion order; assigning to a key that is present
  replaces the value in place. This is \<^const>\<open>AList.update\<close> on an association list.
\<close>

type_synonym pydict = "(int \<times> string) list"

text \<open>
  What the loader hands to the extractor: the paragraph texts of a \<open>.docx\<close> document
  (\<open>doc.paragraphs\<close>), or the decoded content of any other file.
\<close>

datatype source = Docx "string list" | Plain string

text \<open>Lines 23 to 27.\<close>

fun content_of :: "source \<Rightarrow> string" where
  "content_of (Docx ps) = join_str [NL] ps"
| "content_of (Plain s) = s"

text \<open>Lines 41 to 43.\<close>

fun numbered_loop :: "(string \<times> string) list \<Rightarrow> pydict \<Rightarrow> pydict" where
  "numbered_loop [] paragraphs = paragraphs"
| "numbered_loop ((num, text) # ms) paragraphs =
     numbered_loop ms (AList.update (py_int num) (clean_text text) paragraphs)"

text \<open>Lines 48 to 53.\<close>

fun docx_loop :: "string list \<Rightarrow> int \<Rightarrow> pydict \<Rightarrow> pydict" where
  "docx_loop [] para_num paragraphs = paragraphs"
| "docx_loop (p # ps) para_num paragraphs =
     (let text = strip p in
      if text \<noteq> [] \<and> length text > 20
      then docx_loop ps (para_num + 1) (AList.update para_num text paragraphs)
      else docx_loop ps para_num paragraphs)"

text \<open>Lines 56 to 61.\<close>

fun plain_loop :: "string list \<Rightarrow> int \<Rightarrow> pydict \<Rightarrow> pydict" where
  "plain_loop [] para_num paragraphs = paragraphs"
| "plain_loop (part # parts) para_num paragraphs =
     (let text = strip (clean_text part) in
      if text \<noteq> [] \<and> length text > 20
      then plain_loop parts (para_num + 1) (AList.update para_num text paragraphs)
      else plain_loop parts para_num paragraphs)"

text \<open>Lines 35 to 63, on the loaded source.\<close>

definition parse_document :: "source \<Rightarrow> pydict" where
  "parse_document src =
     (let content = content_of src;
          matches = findall content
      in if matches \<noteq> [] then numbered_loop matches []
         else (case src of
                 Docx ps \<Rightarrow> docx_loop ps 1 []
               | Plain s \<Rightarrow> plain_loop (split_nn [] content) 1 []))"

text \<open>
  \<open>re.finditer\<close> runs the same search as \<open>re.findall\<close> and reports, for each match,
  the offset \<open>m.start()\<close> at which it begins; \<open>pos\<close> is the offset of \<open>s\<close> in the
  whole text.
\<close>

function finditer :: "nat \<Rightarrow> string \<Rightarrow> (nat \<times> string \<times> string) list" where
  "finditer pos s =
     (case match_at s of
        Some (num, text, rest) \<Rightarrow>
          (pos, num, text) # finditer (pos + (length s - length rest)) rest
      | None \<Rightarrow> (case s of [] \<Rightarrow> [] | c # r \<Rightarrow> finditer (Suc pos) r))"
  by pat_completeness auto
termination
  by (relation "measure (\<lambda>(pos, s). length s)") (auto dest: match_at_suffix)

declare finditer.simps [simp del]

section \<open>Prompt generation\<close>

text \<open>Lines 9 to 17.\<close>

definition SYSTEM_INSTRUCTION :: string where
  "SYSTEM_INSTRUCTION = join_str [NL]
     [''You are a film director, anthropologist, and visual historian creating cinematic video prompts for Google Veo 3 (fast mode).'',
      ''Your task is to generate 1 prompt in English from the provided paragraph of a prehistoric narrative script.'',
      [],
      ''Guidelines:'',
      ''- Create vivid, cinematic descriptions suitable for video generation'',
      ''- Focus on visual elements, atmosphere, and camera work'',
      ''- Keep prompts concise but descriptive (2-4 sentences)'',
      ''- Include details about lighting, composition, and mood'',
      ''- Respond ONLY with the video prompt text, no additional commentary'']"

text \<open>
  The request of lines 94 to 104, with the credential the client was built with. The
  sampling temperature, the constant 0.7, is a floating-point number and is left out.
\<close>

record request =
  credential :: string
  extra_headers :: "(string \<times> string) list"
  model :: string
  system_content :: string
  user_content :: string
  max_tokens :: nat

text \<open>
  What the body of the \<open>try\<close> block gets back for one request: an exception, given by
  its \<open>repr\<close>, or the content of the first choice's message. The remote service is a
  function of the request and of its position in the sequence of requests. Only subclasses
  of \<open>Exception\<close> are outcomes of a request; an interrupt of the process is not.
\<close>

datatype reply = Raised string | Content string

type_synonym remote = "nat \<Rightarrow> request \<Rightarrow> reply"

text \<open>Lines 88 to 104.\<close>

definition build_request :: "string \<Rightarrow> string \<Rightarrow> string \<Rightarrow> string \<Rightarrow> request" where
  "build_request api_key site_url site_name paragraph_text =
     \<lparr>credential = api_key,
      extra_headers = (if site_url \<noteq> [] then [(''HTTP-Referer'', site_url)] else [])
                      @ (if site_name \<noteq> [] then [(''X-Title'', site_name)] else []),
      model = ''openai/gpt-4o'',
      system_content = SYSTEM_INSTRUCTION,
      user_content = paragraph_text,
      max_tokens = 200\<rparr>"

text \<open>Lines 87 to 107: the body of the \<open>try\<close> block; \<open>Inl\<close> is the exception raised in it.\<close>

definition try_body :: "remote \<Rightarrow> nat \<Rightarrow> request \<Rightarrow> string + string" where
  "try_body service i req =
     (case service i req of Raised e \<Rightarrow> Inl e | Content c \<Rightarrow> Inr (strip c))"

text \<open>Lines 83 to 112: the loop, with the handler of line 110.\<close>

fun prompts_loop ::
  "remote \<Rightarrow> string \<Rightarrow> string \<Rightarrow> string \<Rightarrow> nat \<Rightarrow> (int \<times> string) list \<Rightarrow> pydict \<Rightarrow> pydict" where
  "prompts_loop service api_key site_url site_name i [] results = results"
| "prompts_loop service api_key site_url site_name i ((num, paragraph_text) # items) results =
     (case try_body service i (build_request api_key site_url site_name paragraph_text) of
        Inr video_prompt \<Rightarrow>
          prompts_loop service api_key site_url site_name (Suc i) items
            (AList.update num video_prompt results)
      | Inl e \<Rightarrow>
          prompts_loop service api_key site_url site_name (Suc i) items
            (AList.update num (''ERROR: '' @ e) results))"

text \<open>\<open>items[:n]\<close>: a negative bound counts from the end.\<close>

definition slice_to :: "int \<Rightarrow> 'a list \<Rightarrow> 'a list" where
  "slice_to n xs = (if 0 \<le> n then take (nat n) xs else take (length xs - nat (- n)) xs)"

text \<open>Lines 79 to 81: \<open>if max_paragraphs:\<close> is false for \<open>None\<close> and for \<open>0\<close>.\<close>

definition capped_items :: "pydict \<Rightarrow> int option \<Rightarrow> (int \<times> string) list" where
  "capped_items paragraphs max_paragraphs =
     (case max_paragraphs of
        None \<Rightarrow> paragraphs
      | Some n \<Rightarrow> if n \<noteq> 0 then slice_to n paragraphs else paragraphs)"

text \<open>
  Lines 65 to 114. Building the client (lines 72 to 75) sends no request; the credential
  it is given travels with every request.
\<close>

definition generate_video_prompts ::
  "remote \<Rightarrow> pydict \<Rightarrow> string \<Rightarrow> string \<Rightarrow> string \<Rightarrow> int option \<Rightarrow> pydict" where
  "generate_video_prompts service paragraphs api_key site_url site_name max_paragraphs =
     prompts_loop service api_key site_url site_name 0
       (capped_items paragraphs max_paragraphs) []"

section \<open>Result writers\<close>

datatype py_error = FileNotFoundError | KeyError | OtherException string

text \<open>\<open>str(num)\<close>, as the f-string of line 127 and the CSV writer format an \<open>int\<close>.\<close>

fun str_nat :: "nat \<Rightarrow> string" where
  "str_nat n =
     (if n < 10 then [char_of (48 + n)] else str_nat (n div 10) @ [char_of (48 + n mod 10)])"

declare str_nat.simps [simp del]

definition str_int :: "int \<Rightarrow> string" where
  "str_int i = (if i < 0 then ''-'' @ str_nat (nat (- i)) else str_nat (nat i))"

definition rule80 :: string where
  "rule80 = replicate 80 (CHR ''='')"

definition dashes80 :: string where
  "dashes80 = replicate 80 (CHR ''-'')"

text \<open>Lines 121 to 124; \<open>now\<close> is the formatted time of the call.\<close>

definition banner :: "string \<Rightarrow> string" where
  "banner now = rule80 @ [NL] @ ''VIDEO PROMPTS GENERATED'' @ [NL]
                @ ''Date: '' @ now @ [NL] @ rule80 @ [NL, NL]"

text \<open>Lines 127 to 129 for one key.\<close>

definition txt_block :: "int \<Rightarrow> string \<Rightarrow> string" where
  "txt_block num prompt = ''PARAGRAPH '' @ str_int num @ [NL] @ dashes80 @ [NL] @ prompt @ [NL, NL]"

text \<open>
  Lines 126 to 129: \<open>f\<close> is what has been written so far. \<open>results[num]\<close> raises
  \<open>KeyError\<close> on a missing key, after the first two writes of the block.
\<close>

fun write_blocks :: "pydict \<Rightarrow> int list \<Rightarrow> string \<Rightarrow> string \<times> py_error option" where
  "write_blocks results [] f = (f, None)"
| "write_blocks results (num # nums) f =
     (case map_of results num of
        None \<Rightarrow> (f @ ''PARAGRAPH '' @ str_int num @ [NL] @ dashes80 @ [NL], Some KeyError)
      | Some prompt \<Rightarrow> write_blocks results nums (f @ txt_block num prompt))"

text \<open>
  \<open>csv.writer\<close> with its default dialect: fields joined by a comma, a field quoted when
  it holds a comma, a quote or a line-break character, quotes doubled inside a quoted
  field, rows ended by carriage return and line feed.
\<close>

definition csv_field :: "string \<Rightarrow> string" where
  "csv_field s =
     (if \<exists>c \<in> set s. c \<in> set [CHR '','', CHR 0x22, CHR 0x0D, CHR 0x0A]
      then [CHR 0x22] @ concat (map (\<lambda>c. if c = CHR 0x22 then [c, c] else [c]) s) @ [CHR 0x22]
      else s)"

definition csv_row :: "string list \<Rightarrow> string" where
  "csv_row cells = join_str '','' (map csv_field cells) @ [CHR 0x0D, CHR 0x0A]"

text \<open>Lines 141 and 142.\<close>

fun write_rows :: "pydict \<Rightarrow> int list \<Rightarrow> string \<Rightarrow> string \<times> py_error option" where
  "write_rows results [] f = (f, None)"
| "write_rows results (num # nums) f =
     (case map_of results num of
        None \<Rightarrow> (f, Some KeyError)
      | Some prompt \<Rightarrow> write_rows results nums (f @ csv_row [str_int num, prompt]))"

section \<open>Files, console and the entry point\<close>

text \<open>
  A file is a \<open>.docx\<close> package with its paragraph texts, a UTF-8 text, or something that
  is neither. The file system maps paths to files.
\<close>

datatype stored = DocxFile "string list" | TextFile string | OtherFile

text \<open>The lines that the program prints, one constructor for each \<open>print\<close>.\<close>

datatype msg =
    Rule
  | MsgNoApiKey
  | MsgSetEnvVar
  | MsgTitle
  | MsgPython string
  | MsgInput string
  | MsgProcessing "int option"
  | MsgStage nat
  | MsgFound nat
  | MsgFileNotFound
  | MsgReadError py_error
  | MsgProcessed nat
  | MsgTxtFile string
  | MsgCsvFile string
  | MsgSaved string string
  | DebugTitle
  | DebugHead string
  | DebugLength nat
  | InfoNoNumbering
  | ItemStart int
  | ItemText string
  | ItemDone string
  | ItemFailed int string

record world =
  files :: "string \<rightharpoonup> stored"
  console :: "msg list"
  reads :: "string list"
  sent :: "request list"

text \<open>
  Lines 117 to 142. Opening a file for writing creates it or empties it; what the
  \<open>with\<close> block wrote is its content when the block is left, also when it is left by
  an exception. The content is the text handed to \<open>write\<close>, before the platform's
  translation of line breaks in the report; the export is opened with \<open>newline=''\<close>
  and is stored as written.
\<close>

definition save_results_txt :: "pydict \<Rightarrow> string \<Rightarrow> string \<Rightarrow> world \<Rightarrow> world \<times> py_error option" where
  "save_results_txt results output_file now w =
     (case write_blocks results (sort (map fst results)) (banner now) of
        (f, err) \<Rightarrow> (w\<lparr>files := (files w)(output_file \<mapsto> TextFile f)\<rparr>, err))"

definition save_results_csv :: "pydict \<Rightarrow> string \<Rightarrow> world \<Rightarrow> world \<times> py_error option" where
  "save_results_csv results output_file w =
     (case write_rows results (sort (map fst results))
             (csv_row [''Paragraph Number'', ''Video Prompt'']) of
        (f, err) \<Rightarrow> (w\<lparr>files := (files w)(output_file \<mapsto> TextFile f)\<rparr>, err))"

text \<open>
  \<open>Path(file_path).suffix.lower()\<close>: the name is the last component of the path that is
  neither empty nor a single dot; its suffix starts at the last dot of the name, when that
  dot is neither the first nor the last character.
\<close>

fun split_on :: "char \<Rightarrow> string \<Rightarrow> string \<Rightarrow> string list" where
  "split_on sep cur [] = [cur]"
| "split_on sep cur (c # r) =
     (if c = sep then cur # split_on sep [] r else split_on sep (cur @ [c]) r)"

definition path_name :: "string \<Rightarrow> string" where
  "path_name p =
     (case filter (\<lambda>x. x \<noteq> [] \<and> x \<noteq> ''.'') (split_on (CHR ''/'') [] p) of
        [] \<Rightarrow> []
      | x # xs \<Rightarrow> last (x # xs))"

definition path_suffix :: "string \<Rightarrow> string" where
  "path_suffix name =
     (let ext = rev (takeWhile (\<lambda>c. c \<noteq> CHR ''.'') (rev name))
      in if CHR ''.'' \<in> set name \<and> ext \<noteq> [] \<and> length ext + 1 < length name
         then CHR ''.'' # ext else [])"

definition lower :: "char \<Rightarrow> char" where
  "lower c =
     (let n = (of_char c :: nat)
      in if (65 \<le> n \<and> n \<le> 90) \<or> (192 \<le> n \<and> n \<le> 222 \<and> n \<noteq> 215)
         then char_of (n + 32) else c)"

definition is_docx :: "string \<Rightarrow> bool" where
  "is_docx file_path = (map lower (path_suffix (path_name file_path)) = ''.docx'')"

text \<open>
  \<open>read_text\<close> opens the file in text mode, which turns every carriage return with a
  line feed after it, and every other carriage return, into one line feed.
\<close>

fun universal_newlines :: "string \<Rightarrow> string" where
  "universal_newlines [] = []"
| "universal_newlines [c] = [if c = CHR 0x0D then NL else c]"
| "universal_newlines (c # d # r) =
     (if c = CHR 0x0D \<and> d = NL then NL # universal_newlines r
      else if c = CHR 0x0D then NL # universal_newlines (d # r)
      else c # universal_newlines (d # r))"

text \<open>
  Lines 21 to 27. \<open>Document\<close> is handed a \<open>Path\<close>, not a string, and so opens it as
  a zip archive: a missing file raises \<open>FileNotFoundError\<close> and a file that is no
  archive raises \<open>BadZipFile\<close>. \<open>read_text\<close> raises \<open>FileNotFoundError\<close> on a
  missing file and a decoding error on a file that is not UTF-8 text. A stored text file
  holds its decoded characters as they are on disk.
\<close>

definition load :: "string \<Rightarrow> (string \<rightharpoonup> stored) \<Rightarrow> py_error + source" where
  "load file_path fs =
     (if is_docx file_path
      then (case fs file_path of
              None \<Rightarrow> Inl FileNotFoundError
            | Some (DocxFile ps) \<Rightarrow> Inr (Docx ps)
            | Some _ \<Rightarrow> Inl (OtherException ''BadZipFile''))
      else (case fs file_path of
              None \<Rightarrow> Inl FileNotFoundError
            | Some (TextFile s) \<Rightarrow> Inr (Plain (universal_newlines s))
            | Some _ \<Rightarrow> Inl (OtherException ''UnicodeDecodeError'')))"

text \<open>
  Lines 20 to 63 on the file system: the file is read, the five lines of lines 29 to 33
  are printed, and the paragraphs are extracted; without numbering, line 45 is printed and
  a \<open>.docx\<close> document is opened a second time (line 47).
\<close>

definition parse_document_file :: "string \<Rightarrow> world \<Rightarrow> (py_error + pydict) \<times> world" where
  "parse_document_file file_path w =
     (let w1 = w\<lparr>reads := reads w @ [file_path]\<rparr>
      in case load file_path (files w) of
           Inl e \<Rightarrow> (Inl e, w1)
         | Inr src \<Rightarrow>
             (let content = content_of src;
                  w2 = w1\<lparr>console := console w1
                          @ [DebugTitle, Rule, DebugHead (take 500 content), Rule,
                             DebugLength (length content)]\<rparr>
              in if findall content \<noteq> [] then (Inr (parse_document src), w2)
                 else (let w3 = w2\<lparr>console := console w2 @ [InfoNoNumbering]\<rparr>
                       in (Inr (parse_document src),
                           case src of
                             Docx ps \<Rightarrow> w3\<lparr>reads := reads w3 @ [file_path]\<rparr>
                           | Plain s \<Rightarrow> w3))))"

text \<open>The requests that the loop of line 83 sends, and the lines it prints.\<close>

fun generate_log ::
  "remote \<Rightarrow> string \<Rightarrow> string \<Rightarrow> string \<Rightarrow> nat \<Rightarrow> (int \<times> string) list \<Rightarrow> msg list" where
  "generate_log service api_key site_url site_name i [] = []"
| "generate_log service api_key site_url site_name i ((num, paragraph_text) # items) =
     [ItemStart num, ItemText (take 100 paragraph_text)]
     @ (case try_body service i (build_request api_key site_url site_name paragraph_text) of
          Inr video_prompt \<Rightarrow> [ItemDone (take 80 video_prompt)]
        | Inl e \<Rightarrow> [ItemFailed num e])
     @ generate_log service api_key site_url site_name (Suc i) items"

definition generate_requests ::
  "string \<Rightarrow> string \<Rightarrow> string \<Rightarrow> (int \<times> string) list \<Rightarrow> request list" where
  "generate_requests api_key site_url site_name items =
     map (\<lambda>(num, paragraph_text). build_request api_key site_url site_name paragraph_text) items"

text \<open>
  The values that \<open>main\<close> embeds (lines 147 to 154); \<open>SITE_URL\<close> and \<open>SITE_NAME\<close>
  come from the environment.
\<close>

record config =
  INPUT_FILE :: string
  OUTPUT_TXT :: string
  OUTPUT_CSV :: string
  MAX_PARAGRAPHS :: "int option"
  OPENROUTER_API_KEY :: string
  SITE_URL :: string
  SITE_NAME :: string

definition source_config :: "string \<Rightarrow> string \<Rightarrow> config" where
  "source_config url name =
     \<lparr>INPUT_FILE = ''200. How People Kept Warm in Castles Without Fireplaces ENG.docx'',
      OUTPUT_TXT = ''video_prompts.txt'',
      OUTPUT_CSV = ''video_prompts.csv'',
      MAX_PARAGRAPHS = Some 2,
      OPENROUTER_API_KEY = [],
      SITE_URL = url,
      SITE_NAME = name\<rparr>"

definition say :: "msg list \<Rightarrow> world \<Rightarrow> world" where
  "say ms w = w\<lparr>console := console w @ ms\<rparr>"

text \<open>\<open>MAX_PARAGRAPHS or 'ALL'\<close> of line 167.\<close>

definition cap_or_all :: "int option \<Rightarrow> int option" where
  "cap_or_all cap = (case cap of None \<Rightarrow> None | Some n \<Rightarrow> if n \<noteq> 0 then Some n else None)"

text \<open>
  Lines 145 to 199. \<open>version\<close> is the interpreter's version string and \<open>now\<close> the
  formatted time at which the report is written. The second component is the exception
  that leaves \<open>main\<close>, if any.
\<close>

definition main :: "config \<Rightarrow> remote \<Rightarrow> string \<Rightarrow> string \<Rightarrow> world \<Rightarrow> world \<times> py_error option" where
  "main cfg service version now w =
     (if OPENROUTER_API_KEY cfg = []
      then (say [Rule, MsgNoApiKey, Rule, MsgSetEnvVar, Rule] w, None)
      else
        (let w1 = say [MsgTitle, MsgPython version, MsgInput (INPUT_FILE cfg),
                       MsgProcessing (cap_or_all (MAX_PARAGRAPHS cfg)), Rule, MsgStage 1] w
         in case parse_document_file (INPUT_FILE cfg) w1 of
              (Inl FileNotFoundError, w2) \<Rightarrow> (say [MsgFileNotFound] w2, None)
            | (Inl e, w2) \<Rightarrow> (say [MsgReadError e] w2, None)
            | (Inr paragraphs, w2) \<Rightarrow>
                (let w3 = say [MsgFound (length paragraphs), MsgStage 2] w2;
                     items = capped_items paragraphs (MAX_PARAGRAPHS cfg);
                     results = generate_video_prompts service paragraphs (OPENROUTER_API_KEY cfg)
                                 (SITE_URL cfg) (SITE_NAME cfg) (MAX_PARAGRAPHS cfg);
                     w4 = say (generate_log service (OPENROUTER_API_KEY cfg) (SITE_URL cfg)
                                 (SITE_NAME cfg) 0 items)
                            (w3\<lparr>sent := sent w3 @ generate_requests (OPENROUTER_API_KEY cfg)
                                                   (SITE_URL cfg) (SITE_NAME cfg) items\<rparr>);
                     w5 = say [MsgProcessed (length results), MsgStage 3] w4
                 in case save_results_txt results (OUTPUT_TXT cfg) now w5 of
                      (w6, Some e) \<Rightarrow> (w6, Some e)
                    | (w6, None) \<Rightarrow>
                        (case save_results_csv results (OUTPUT_CSV cfg)
                                (say [MsgTxtFile (OUTPUT_TXT cfg)] w6) of
                           (w7, Some e) \<Rightarrow> (w7, Some e)
                         | (w7, None) \<Rightarrow>
                             (say [MsgCsvFile (OUTPUT_CSV cfg),
                                   MsgSaved (OUTPUT_TXT cfg) (OUTPUT_CSV cfg)] w7, None)))))"

text \<open>The dictionary entry that line 43 stores for one match.\<close>

definition entry_of :: "string \<times> string \<Rightarrow> int \<times> string" where
  "entry_of m = (py_int (fst m), clean_text (snd m))"

section \<open>Notions of the specification\<close>

text \<open>
  Text in the numbered format: every paragraph is a run of digits, a period, a run of
  whitespace and a body, and paragraphs are separated by one line break. The body starts
  with a character that is not whitespace, and no line break in it, nor the one that ends
  it, is followed by digits, a period and whitespace; it may span several lines.
\<close>

type_synonym item = "string \<times> string \<times> string"

fun render :: "item \<Rightarrow> string" where
  "render (ds, ws, body) = ds @ ''.'' @ ws @ body"

definition numbered_text :: "item list \<Rightarrow> string" where
  "numbered_text items = join_str [NL] (map render items)"

text \<open>
  The start of a numbered run after a line break, in the words of the specification: a
  line break, then one or more digits, a period and a whitespace character.
\<close>

definition numbered_break :: "string \<Rightarrow> bool" where
  "numbered_break s =
     (case s of
        [] \<Rightarrow> False
      | c # r \<Rightarrow>
          c = NL \<and> takeWhile isdigit r \<noteq> []
          \<and> (case dropWhile isdigit r of
                 d # w # u \<Rightarrow> d = CHR ''.'' \<and> isspace w
               | _ \<Rightarrow> False))"

fun no_inner_start :: "string \<Rightarrow> bool" where
  "no_inner_start [] = True"
| "no_inner_start (c # r) = (\<not> numbered_break (c # r @ [NL]) \<and> no_inner_start r)"

text \<open>The same condition on the lookahead of the pattern, for the proofs.\<close>

fun no_look_inside :: "string \<Rightarrow> bool" where
  "no_look_inside [] = True"
| "no_look_inside (c # r) = (\<not> run_start (c # r @ [NL]) \<and> no_look_inside r)"

fun well_formed_item :: "item \<Rightarrow> bool" where
  "well_formed_item (ds, ws, body) =
     (ds \<noteq> [] \<and> list_all isdigit ds \<and> ws \<noteq> [] \<and> list_all isspace ws
      \<and> body \<noteq> [] \<and> \<not> isspace (hd body) \<and> no_inner_start body)"

fun item_match :: "item \<Rightarrow> string \<times> string" where
  "item_match (ds, ws, body) = (ds, body)"

fun item_entry :: "item \<Rightarrow> int \<times> string" where
  "item_entry (ds, ws, body) = (py_int ds, clean_text body)"

text \<open>
  The blocks that the plain-text fallback accepts: the pieces between blank-line
  boundaries, each collapsed and trimmed, that are longer than 20 characters.
\<close>

definition accepted_blocks :: "string \<Rightarrow> string list" where
  "accepted_blocks content =
     filter (\<lambda>t. 20 < length t) (map (\<lambda>part. strip (clean_text part)) (split_nn [] content))"

text \<open>
  Whitespace-collapsed text: the only whitespace characters are single spaces between
  two other characters. Trimmed text has no whitespace at either end.
\<close>

fun single_spaced :: "string \<Rightarrow> bool" where
  "single_spaced [] = True"
| "single_spaced [c] = True"
| "single_spaced (c # d # r) = (\<not> (isspace c \<and> isspace d) \<and> single_spaced (d # r))"

definition trimmed :: "string \<Rightarrow> bool" where
  "trimmed t = (t \<noteq> [] \<longrightarrow> \<not> isspace (hd t) \<and> \<not> isspace (last t))"

definition collapsed :: "string \<Rightarrow> bool" where
  "collapsed t = ((\<forall>c \<in> set t. isspace c \<longrightarrow> c = CHR '' '') \<and> single_spaced t \<and> trimmed t)"

definition is_word :: "string \<Rightarrow> bool" where
  "is_word w = (w \<noteq> [] \<and> (\<forall>c \<in> set w. \<not> isspace c))"



text \<open>The result of one item: the prompt, or the error marker of line 112.\<close>

definition item_result :: "remote \<Rightarrow> string \<Rightarrow> string \<Rightarrow> string \<Rightarrow> nat \<Rightarrow> string \<Rightarrow> string" where
  "item_result service api_key site_url site_name i paragraph_text =
     (case service i (build_request api_key site_url site_name paragraph_text) of
        Raised e \<Rightarrow> ''ERROR: '' @ e
      | Content c \<Rightarrow> strip c)"

text \<open>
  Two remote services for the scenarios of the specification: one answers every request
  with the same prompt, the other fails on the second request.
\<close>

definition echo :: remote where
  "echo i req = Content ''PROMPT_A''"

definition failing_second :: remote where
  "failing_second i req = (if i = 1 then Raised ''APIError()'' else Content '' PROMPT_A '')"

text \<open>A world with no files, in which nothing has happened yet.\<close>

definition w_empty :: world where
  "w_empty = \<lparr>files = Map.empty, console = [], reads = [], sent = []\<rparr>"

section \<open>Properties of the numbered scan\<close>

lemma map_of_numbered_loop:
  "map_of (numbered_loop ms d) = map_of (rev (map entry_of ms) @ d)"
proof (induction ms arbitrary: d)
  case Nil
  show ?case by simp
next
  case (Cons m ms)
  obtain num body where m: "m = (num, body)" by (cases m)
  have "map_of (numbered_loop (m # ms) d)
        = map_of (rev (map entry_of ms) @ AList.update (py_int num) (clean_text body) d)"
    using Cons.IH by (simp add: m)
  also have "\<dots> = map_of (rev (map entry_of (m # ms)) @ d)"
    by (simp add: m entry_of_def update_conv' map_add_def fun_eq_iff split: option.splits)
  finally show ?case .
qed

lemma distinct_numbered_loop:
  "distinct (map fst d) \<Longrightarrow> distinct (map fst (numbered_loop ms d))"
  by (induction ms arbitrary: d) (auto simp: distinct_update)

text \<open>
  Claim C3. When a paragraph number occurs more than once among the matches of the
  numbered scan, the later occurrence overwrites the earlier one: the value stored under
  a number is the normalised text of the last match that carries it, and the number is a
  key of the result only once. The text \<open>1. A\<newline>1. B\<close> yields \<open>{1: B}\<close>.
\<close>

theorem C3_last_write_wins:
  assumes "findall (content_of src) = pre @ (num, text) # post"
    and "\<forall>m \<in> set post. py_int (fst m) \<noteq> py_int num"
  shows "map_of (parse_document src) (py_int num) = Some (clean_text text)
         \<and> distinct (map fst (parse_document src))"
proof -
  let ?ms = "pre @ (num, text) # post"
  have pd: "parse_document src = numbered_loop ?ms []"
    using assms(1) by (simp add: parse_document_def)
  have "py_int num \<notin> fst ` set (map entry_of post)"
    using assms(2) by (auto simp: entry_of_def)
  then have "map_of (rev (map entry_of post)) (py_int num) = None"
    by (simp add: map_of_eq_None_iff)
  then have "map_of (rev (map entry_of ?ms)) (py_int num) = Some (clean_text text)"
    by (simp add: map_add_def entry_of_def)
  then show ?thesis
    by (simp add: pd map_of_numbered_loop distinct_numbered_loop)
qed

theorem C3_last_write_wins_witness:
  "parse_document (Plain (''1. A'' @ [NL] @ ''1. B'')) = [(1, ''B'')]
   \<and> map_of (parse_document (Plain (''1. A'' @ [NL] @ ''1. B''))) (py_int ''1'')
       = Some (clean_text ''B'')"
proof -
  have h1: "findall (content_of (Plain (''1. A'' @ [NL] @ ''1. B'')))
            = [(''1'', ''A'')] @ (''1'', ''B'') # []"
    by code_simp
  have h2: "\<forall>m \<in> set ([] :: (string \<times> string) list). py_int (fst m) \<noteq> py_int ''1''"
    by simp
  have "parse_document (Plain (''1. A'' @ [NL] @ ''1. B'')) = [(1, ''B'')]"
    by code_simp
  with C3_last_write_wins [OF h1 h2] show ?thesis by simp
qed

lemma isspace_NL: "isspace NL" by (simp add: isspace_def NL_def)
lemma not_isdigit_NL: "\<not> isdigit NL" by (simp add: isdigit_def NL_def)
lemma not_isdigit_dot: "\<not> isdigit (CHR ''.'')" by (simp add: isdigit_def)
lemma isdigit_not_dot: "isdigit c \<Longrightarrow> c \<noteq> CHR ''.''" by (auto simp: isdigit_def)
lemma NL_not_dot: "NL \<noteq> CHR ''.''" by (simp add: NL_def)

lemma look_digits_run:
  "ds \<noteq> [] \<Longrightarrow> list_all isdigit ds \<Longrightarrow> isspace w \<Longrightarrow> look_digits (ds @ CHR ''.'' # w # t)"
proof (induction ds)
  case Nil
  then show ?case by simp
next
  case (Cons d ds)
  then show ?case by (cases ds) auto
qed

lemma look_space_NL: "look_space (v @ t) \<Longrightarrow> look_space (v @ [NL])"
  by (cases v) (auto simp: isspace_NL)

lemma look_dot_NL:
  "look_dot (v @ t) \<Longrightarrow> t = [] \<or> hd t = NL \<Longrightarrow> look_dot (v @ [NL])"
proof (cases v)
  case Nil
  then show "look_dot (v @ t) \<Longrightarrow> t = [] \<or> hd t = NL \<Longrightarrow> ?thesis"
    using NL_not_dot by (cases t) auto
next
  case (Cons c v')
  assume "look_dot (v @ t)"
  with Cons have "c = CHR ''.''" and "look_space (v' @ t)" by simp_all
  with Cons show ?thesis using look_space_NL [of v' t] by simp
qed

lemma look_digits_NL:
  "look_digits (v @ t) \<Longrightarrow> t = [] \<or> hd t = NL \<Longrightarrow> look_digits (v @ [NL])"
proof (induction v)
  case Nil
  then show ?case by (cases t) (auto simp: not_isdigit_NL)
next
  case (Cons c v)
  then show ?case by (auto dest: look_dot_NL)
qed

lemma run_start_NL:
  "run_start (c # r @ t) \<Longrightarrow> t = [] \<or> hd t = NL \<Longrightarrow> run_start (c # r @ [NL])"
  by (auto dest: look_digits_NL)

lemma look_digits_closed:
  "look_digits r = (takeWhile isdigit r \<noteq> []
                    \<and> (case dropWhile isdigit r of
                           d # w # u \<Rightarrow> d = CHR ''.'' \<and> isspace w
                         | _ \<Rightarrow> False))"
proof (induction r)
  case Nil
  show ?case by simp
next
  case (Cons c r)
  show ?case
  proof (cases "isdigit c")
    case False
    then show ?thesis by simp
  next
    case True
    note c = this
    show ?thesis
    proof (cases r)
      case Nil
      with c show ?thesis by simp
    next
      case (Cons d r')
      show ?thesis
      proof (cases "isdigit d")
        case True
        with c Cons Cons.IH isdigit_not_dot [of d] show ?thesis by auto
      next
        case False
        with c Cons show ?thesis by (cases r') auto
      qed
    qed
  qed
qed

lemma run_start_numbered_break: "run_start s = numbered_break s"
  by (cases s) (simp_all add: numbered_break_def look_digits_closed)

lemma no_inner_start_look: "no_inner_start b \<Longrightarrow> no_look_inside b"
  by (induction b) (simp_all add: run_start_numbered_break del: run_start.simps)

lemma lazy_text_body:
  "no_look_inside b \<Longrightarrow> lookahead tail \<Longrightarrow> tail = [] \<or> hd tail = NL
   \<Longrightarrow> lazy_text acc (b @ tail) = Some (acc @ b, tail)"
proof (induction b arbitrary: acc)
  case Nil
  then show ?case by (cases tail) (auto simp: lookahead_def)
next
  case (Cons c r)
  from Cons.prems have "\<not> run_start (c # r @ tail)"
    using run_start_NL [of c r tail] by auto
  then have "\<not> lookahead ((c # r) @ tail)" by (simp add: lookahead_def)
  moreover from Cons have "lazy_text (acc @ [c]) (r @ tail) = Some ((acc @ [c]) @ r, tail)"
    by simp
  ultimately show ?case by simp
qed

lemma lazy_text_total: "lazy_text acc s \<noteq> None"
  by (induction s arbitrary: acc) (auto simp: lookahead_def)

lemma text_then_look_total: "s \<noteq> [] \<Longrightarrow> text_then_look s \<noteq> None"
  by (cases s) (auto simp: lazy_text_total)

lemma space_then_text_run:
  "ws \<noteq> [] \<Longrightarrow> list_all isspace ws \<Longrightarrow> s \<noteq> [] \<Longrightarrow> \<not> isspace (hd s)
   \<Longrightarrow> space_then_text (ws @ s) = text_then_look s"
proof (induction ws)
  case Nil
  then show ?case by simp
next
  case (Cons w ws)
  show ?case
  proof (cases ws)
    case Nil
    from Cons.prems have "space_then_text s = None" by (cases s) auto
    with Nil Cons.prems show ?thesis by simp
  next
    case (Cons w' ws')
    with Cons.IH Cons.prems have "space_then_text (ws @ s) = text_then_look s" by simp
    moreover from Cons.prems obtain x where "text_then_look s = Some x"
      using text_then_look_total [of s] by auto
    ultimately show ?thesis using Cons.prems by simp
  qed
qed

lemma digits_then_run:
  "ds \<noteq> [] \<Longrightarrow> list_all isdigit ds
   \<Longrightarrow> digits_then num (ds @ CHR ''.'' # r) = map_option (Pair (num @ ds)) (space_then_text r)"
proof (induction ds arbitrary: num)
  case Nil
  then show ?case by simp
next
  case (Cons d ds)
  show ?case
  proof (cases ds)
    case Nil
    with Cons.prems show ?thesis by (simp add: not_isdigit_dot)
  next
    case (Cons d' ds')
    with Cons.IH [of "num @ [d]"] Cons.prems
    have ih: "digits_then (num @ [d]) (ds @ CHR ''.'' # r)
              = map_option (Pair (num @ d # ds)) (space_then_text r)" by simp
    from Cons Cons.prems have "dot_then (ds @ CHR ''.'' # r) = None"
      by (auto dest: isdigit_not_dot)
    with ih Cons.prems show ?thesis
      by (cases "space_then_text r") auto
  qed
qed

lemma match_at_item:
  assumes "well_formed_item (ds, ws, body)" and "lookahead tail" and "tail = [] \<or> hd tail = NL"
  shows "match_at (render (ds, ws, body) @ tail) = Some (ds, body, tail)"
proof -
  from assms(1) obtain c r where body: "body = c # r" by (cases body) auto
  from assms(1) body have nis: "no_look_inside r" by (simp add: no_inner_start_look)
  have "text_then_look (body @ tail) = Some (body, tail)"
    using lazy_text_body [OF nis assms(2,3), of "[c]"] by (simp add: body)
  moreover have "space_then_text (ws @ body @ tail) = text_then_look (body @ tail)"
    using assms(1) by (intro space_then_text_run) (auto simp: body)
  moreover have "digits_then [] (ds @ CHR ''.'' # ws @ body @ tail)
                 = map_option (Pair ([] @ ds)) (space_then_text (ws @ body @ tail))"
    using assms(1) by (intro digits_then_run) auto
  ultimately show ?thesis by (simp add: match_at_def)
qed

lemma match_at_NL: "match_at (NL # s) = None"
  by (simp add: match_at_def not_isdigit_NL)

lemma match_at_Nil: "match_at [] = None"
  by (simp add: match_at_def)

lemma numbered_text_Cons:
  "numbered_text (it # its) = render it @ (if its = [] then [] else NL # numbered_text its)"
  by (cases its) (simp_all add: numbered_text_def)

lemma lookahead_numbered_text:
  assumes "its \<noteq> []" and "list_all well_formed_item its"
  shows "lookahead (NL # numbered_text its)"
proof -
  from assms obtain ds ws body its' where its: "its = (ds, ws, body) # its'"
    by (cases its) auto
  with assms(2) obtain w ws' where ws: "ws = w # ws'" and w: "isspace w"
    by (cases ws) auto
  have "numbered_text its = ds @ CHR ''.'' # w # (ws' @ body @ (if its' = [] then [] else NL # numbered_text its'))"
    by (simp add: its numbered_text_Cons ws)
  moreover have "look_digits (ds @ CHR ''.'' # w # (ws' @ body @ (if its' = [] then [] else NL # numbered_text its')))"
    using assms(2) its w by (intro look_digits_run) auto
  ultimately show ?thesis by (simp add: lookahead_def)
qed

lemma findall_numbered_text:
  "list_all well_formed_item items \<Longrightarrow> items \<noteq> []
   \<Longrightarrow> findall (numbered_text items) = map item_match items"
proof (induction items)
  case Nil
  then show ?case by simp
next
  case (Cons it its)
  obtain ds ws body where it: "it = (ds, ws, body)" by (cases it)
  let ?tail = "if its = [] then [] else NL # numbered_text its"
  have wf: "well_formed_item (ds, ws, body)" using Cons.prems it by simp
  have la: "lookahead ?tail"
    using Cons.prems lookahead_numbered_text [of its] by (auto simp: lookahead_def)
  have hd: "?tail = [] \<or> hd ?tail = NL" by simp
  have m: "match_at (numbered_text (it # its)) = Some (ds, body, ?tail)"
    unfolding numbered_text_Cons it by (rule match_at_item [OF wf la hd])
  have "findall ?tail = map item_match its"
  proof (cases "its = []")
    case True
    then show ?thesis by (simp add: findall.simps [of "[]"] match_at_Nil)
  next
    case False
    then have "findall ?tail = findall (numbered_text its)"
      by (simp add: findall.simps [of "NL # numbered_text its"] match_at_NL)
    with False Cons show ?thesis by simp
  qed
  then show ?case
    using m by (subst findall.simps) (simp add: it)
qed


lemma update_fresh: "k \<notin> fst ` set d \<Longrightarrow> AList.update k v d = d @ [(k, v)]"
  by (induction d) auto

lemma numbered_loop_fresh:
  "distinct (map fst (map entry_of ms)) \<Longrightarrow> fst ` set (map entry_of ms) \<inter> fst ` set d = {}
   \<Longrightarrow> numbered_loop ms d = d @ map entry_of ms"
proof (induction ms arbitrary: d)
  case Nil
  show ?case by simp
next
  case (Cons m ms)
  obtain num body where m: "m = (num, body)" by (cases m)
  let ?k = "py_int num"
  let ?d' = "d @ [(?k, clean_text body)]"
  have fst_m: "fst (entry_of m) = ?k" by (simp add: m entry_of_def)
  from Cons.prems(2) have fresh: "?k \<notin> fst ` set d"
    using fst_m by auto
  then have upd: "AList.update ?k (clean_text body) d = ?d'" by (rule update_fresh)
  from Cons.prems(1) have notin: "?k \<notin> fst ` set (map entry_of ms)"
    using fst_m by auto
  from Cons.prems have "distinct (map fst (map entry_of ms))" by simp
  moreover from Cons.prems(2) notin have "fst ` set (map entry_of ms) \<inter> fst ` set ?d' = {}"
    by auto
  ultimately have "numbered_loop ms ?d' = ?d' @ map entry_of ms" by (rule Cons.IH)
  then show ?case by (simp add: m upd entry_of_def)
qed

lemma entry_of_item_match: "entry_of (item_match it) = item_entry it"
  by (cases it) (simp add: entry_of_def)

lemma plain_loop_zip:
  "\<forall>k \<in> fst ` set d. k < n \<Longrightarrow>
   plain_loop parts n d =
     d @ zip [n..n + int (length (filter (\<lambda>t. 20 < length t) (map (\<lambda>part. strip (clean_text part)) parts))) - 1]
             (filter (\<lambda>t. 20 < length t) (map (\<lambda>part. strip (clean_text part)) parts))"
proof (induction parts arbitrary: n d)
  case Nil
  show ?case by simp
next
  case (Cons part parts)
  let ?t = "strip (clean_text part)"
  let ?acc = "filter (\<lambda>t. 20 < length t) (map (\<lambda>part. strip (clean_text part)) parts)"
  show ?case
  proof (cases "20 < length ?t")
    case True
    then have ne: "?t \<noteq> []" by auto
    from Cons.prems have "n \<notin> fst ` set d" by auto
    then have upd: "AList.update n ?t d = d @ [(n, ?t)]" by (rule update_fresh)
    from Cons.prems have "\<forall>k \<in> fst ` set (d @ [(n, ?t)]). k < n + 1" by auto
    from Cons.IH [OF this]
    have "plain_loop parts (n + 1) (d @ [(n, ?t)])
          = (d @ [(n, ?t)]) @ zip [n + 1..n + 1 + int (length ?acc) - 1] ?acc" .
    moreover have "[n..n + int (Suc (length ?acc)) - 1] = n # [n + 1..n + 1 + int (length ?acc) - 1]"
      by (subst upto_rec1) simp_all
    ultimately show ?thesis using True ne by (simp add: upd Let_def)
  next
    case False
    with Cons.IH [OF Cons.prems] show ?thesis by (simp add: Let_def)
  qed
qed

text \<open>
  Claim C2. When the numbered scan finds no match in a plain text, the result holds the
  accepted blocks, in document order, under the keys 1, 2, ... without gaps: a block
  whose collapsed and trimmed text has at most 20 characters is dropped and uses no key.
\<close>

theorem C2_plain_fallback:
  assumes "findall content = []"
  shows "parse_document (Plain content)
         = zip [1..int (length (accepted_blocks content))] (accepted_blocks content)"
  using assms plain_loop_zip [of "[]" 1 "split_nn [] content"]
  by (simp add: parse_document_def accepted_blocks_def)

theorem C2_plain_fallback_witness:
  "parse_document (Plain (''too short'' @ [NL, NL] @ ''this  block is long'' @ [NL] @ ''enough to keep''
                          @ [NL, NL] @ ''tiny'' @ [NL, NL] @ ''another block that is kept''))
   = [(1, ''this block is long enough to keep''), (2, ''another block that is kept'')]"
proof -
  let ?c = "''too short'' @ [NL, NL] @ ''this  block is long'' @ [NL] @ ''enough to keep''
            @ [NL, NL] @ ''tiny'' @ [NL, NL] @ ''another block that is kept''"
  have h: "findall ?c = []" by code_simp
  have a: "accepted_blocks ?c
           = [''this block is long enough to keep'', ''another block that is kept'']"
    by code_simp
  from C2_plain_fallback [OF h] show ?thesis unfolding a by (simp add: upto.simps)
qed


section \<open>Where matches start and end\<close>


lemma lazy_text_look: "lazy_text acc s = Some (t, rest) \<Longrightarrow> lookahead rest"
  by (induction s arbitrary: acc) (auto split: if_splits)

lemma lazy_text_split: "lazy_text acc s = Some (t, rest) \<Longrightarrow> \<exists>pre. s = pre @ rest"
proof (induction s arbitrary: acc)
  case Nil
  then show ?case by (simp split: if_splits)
next
  case (Cons c r)
  show ?case
  proof (cases "lookahead (c # r)")
    case True
    with Cons.prems show ?thesis by simp
  next
    case False
    with Cons.prems have "lazy_text (acc @ [c]) r = Some (t, rest)" by simp
    from Cons.IH [OF this] obtain pre where "r = pre @ rest" ..
    then have "c # r = (c # pre) @ rest" by simp
    then show ?thesis ..
  qed
qed

lemma text_then_look_look: "text_then_look s = Some (t, rest) \<Longrightarrow> lookahead rest"
  by (cases s) (auto dest: lazy_text_look)

lemma text_then_look_split: "text_then_look s = Some (t, rest) \<Longrightarrow> \<exists>pre. s = pre @ rest"
proof (cases s)
  case Nil
  then show "text_then_look s = Some (t, rest) \<Longrightarrow> ?thesis" by simp
next
  case (Cons c r)
  assume "text_then_look s = Some (t, rest)"
  with Cons have "lazy_text [c] r = Some (t, rest)" by simp
  from lazy_text_split [OF this] obtain pre where "r = pre @ rest" ..
  with Cons have "s = (c # pre) @ rest" by simp
  then show ?thesis ..
qed

lemma space_then_text_look:
  "space_then_text s = Some (t, rest) \<Longrightarrow> lookahead rest \<and> (\<exists>pre. s = pre @ rest)"
proof (induction s)
  case Nil
  then show ?case by simp
next
  case (Cons c r)
  from Cons.prems have sp: "isspace c" by (simp split: if_splits)
  have "lookahead rest \<and> (\<exists>pre. r = pre @ rest)"
  proof (cases "space_then_text r")
    case None
    with Cons.prems sp have "text_then_look r = Some (t, rest)" by simp
    then show ?thesis using text_then_look_look text_then_look_split by blast
  next
    case (Some x)
    with Cons.prems sp have "space_then_text r = Some (t, rest)" by simp
    from Cons.IH [OF this] show ?thesis .
  qed
  then obtain pre where "lookahead rest" and "r = pre @ rest" by blast
  then have "c # r = (c # pre) @ rest" by simp
  with \<open>lookahead rest\<close> show ?case by blast
qed

lemma dot_then_look:
  "dot_then s = Some (t, rest) \<Longrightarrow> lookahead rest \<and> (\<exists>pre. s = pre @ rest)"
proof (cases s)
  case Nil
  then show "dot_then s = Some (t, rest) \<Longrightarrow> ?thesis" by simp
next
  case (Cons c r)
  assume "dot_then s = Some (t, rest)"
  with Cons have "space_then_text r = Some (t, rest)" by (simp split: if_splits)
  from space_then_text_look [OF this] obtain pre where "lookahead rest" and "r = pre @ rest"
    by blast
  with Cons have "s = (c # pre) @ rest" by simp
  with \<open>lookahead rest\<close> show ?thesis by blast
qed

lemma digits_then_look:
  "digits_then num s = Some (n, t, rest) \<Longrightarrow> lookahead rest \<and> (\<exists>pre. s = pre @ rest)"
proof (induction s arbitrary: num)
  case Nil
  then show ?case by simp
next
  case (Cons c r)
  from Cons.prems have dg: "isdigit c" by (simp split: if_splits)
  have "lookahead rest \<and> (\<exists>pre. r = pre @ rest)"
  proof (cases "digits_then (num @ [c]) r")
    case None
    with Cons.prems dg have "dot_then r = Some (t, rest)" by auto
    from dot_then_look [OF this] show ?thesis .
  next
    case (Some x)
    with Cons.prems dg have "digits_then (num @ [c]) r = Some (n, t, rest)" by simp
    from Cons.IH [OF this] show ?thesis .
  qed
  then obtain pre where "lookahead rest" and "r = pre @ rest" by blast
  then have "c # r = (c # pre) @ rest" by simp
  with \<open>lookahead rest\<close> show ?case by blast
qed

lemma finditer_None: "match_at (c # r) = None \<Longrightarrow> finditer p (c # r) = finditer (Suc p) r"
  by (subst finditer.simps) simp

lemma findall_None: "match_at (c # r) = None \<Longrightarrow> findall (c # r) = findall r"
  by (subst findall.simps) simp

lemma findall_Some:
  "match_at s = Some (n, t, rest) \<Longrightarrow> findall s = (n, t) # findall rest"
  by (subst findall.simps) simp

lemma finditer_Some:
  assumes "match_at s = Some (n, t, rest)"
  shows "\<exists>pre. s = pre @ rest \<and> pre \<noteq> [] \<and> lookahead rest
               \<and> finditer p s = (p, n, t) # finditer (p + length pre) rest"
proof -
  from assms have "lookahead rest \<and> (\<exists>pre. s = pre @ rest)"
    unfolding match_at_def by (rule digits_then_look)
  then obtain pre where l: "lookahead rest" and s: "s = pre @ rest" by blast
  from match_at_suffix [OF assms] s have ne: "pre \<noteq> []" by auto
  have "finditer p s = (p, n, t) # finditer (p + (length s - length rest)) rest"
    using assms by (subst finditer.simps) simp
  also have "length s - length rest = length pre" by (simp add: s)
  finally show ?thesis using l s ne by blast
qed

lemma isspace_not_digit: "isspace c \<Longrightarrow> \<not> isdigit c"
  by (auto simp: isspace_def isdigit_def)

lemma space_then_text_single:
  "space_then_text (w # t) = None \<Longrightarrow> isspace w \<Longrightarrow> t = []"
proof (cases t)
  case Nil
  then show ?thesis by simp
next
  case (Cons c t')
  assume "space_then_text (w # t) = None" and "isspace w"
  then have "text_then_look (c # t') = None" by (simp add: Cons split: option.splits)
  with text_then_look_total [of "c # t'"] show ?thesis by simp
qed

lemma look_digits_unmatched:
  "look_digits r \<Longrightarrow> digits_then num r = None
   \<Longrightarrow> \<exists>ds w. r = ds @ [CHR ''.'', w] \<and> list_all isdigit ds \<and> isspace w"
proof (induction r arbitrary: num)
  case Nil
  then show ?case by simp
next
  case (Cons c r)
  from Cons.prems have dg: "isdigit c" and alt: "look_digits r \<or> look_dot r" by simp_all
  from Cons.prems dg have n1: "digits_then (num @ [c]) r = None" and n2: "dot_then r = None"
    by (auto split: option.splits)
  show ?case
  proof (cases "look_digits r")
    case True
    from Cons.IH [OF True n1] obtain ds w
      where "r = ds @ [CHR ''.'', w]" "list_all isdigit ds" "isspace w" by blast
    with dg have "c # r = (c # ds) @ [CHR ''.'', w] \<and> list_all isdigit (c # ds) \<and> isspace w"
      by simp
    then show ?thesis by blast
  next
    case False
    with alt have "look_dot r" by simp
    then obtain w t where r: "r = CHR ''.'' # w # t" and w: "isspace w"
      by (cases r; cases "tl r") auto
    with n2 have "space_then_text (w # t) = None" by simp
    from space_then_text_single [OF this w] r
    have "c # r = [c] @ [CHR ''.'', w]" by simp
    with dg w have "c # r = [c] @ [CHR ''.'', w] \<and> list_all isdigit [c] \<and> isspace w" by simp
    then show ?thesis by blast
  qed
qed

lemma finditer_Nil: "finditer p [] = []"
  by (subst finditer.simps) (simp add: match_at_Nil)

lemma findall_Nil: "findall [] = []"
  by (subst findall.simps) (simp add: match_at_Nil)

lemma finditer_unmatched:
  "list_all isdigit ds \<Longrightarrow> isspace w \<Longrightarrow> finditer p (ds @ [CHR ''.'', w]) = []"
proof (induction ds arbitrary: p)
  case Nil
  have "match_at [CHR ''.'', w] = None" by (simp add: match_at_def not_isdigit_dot)
  moreover have "match_at [w] = None"
    using Nil by (simp add: match_at_def isspace_not_digit)
  ultimately show ?case by (simp add: finditer_None finditer_Nil)
next
  case (Cons d ds)
  from Cons.prems have "digits_then [] ((d # ds) @ CHR ''.'' # [w])
                        = map_option (Pair ([] @ d # ds)) (space_then_text [w])"
    by (intro digits_then_run) auto
  then have "match_at (d # ds @ [CHR ''.'', w]) = None"
    using Cons.prems by (simp add: match_at_def)
  moreover from Cons have "finditer (Suc p) (ds @ [CHR ''.'', w]) = []" by simp
  ultimately show ?case by (simp add: finditer_None)
qed

lemma finditer_after_look:
  "lookahead s \<Longrightarrow> (st, num, body) \<in> set (finditer p s)
   \<Longrightarrow> p < st \<and> st < p + length s \<and> s ! (st - p - 1) = NL"
proof (induction "length s" arbitrary: s p rule: less_induct)
  case less
  show ?case
  proof (cases s)
    case Nil
    with less.prems show ?thesis by (simp add: finditer_Nil)
  next
    case (Cons c r)
    with less.prems(1) have c: "c = NL" and ld: "look_digits r" by (simp_all add: lookahead_def)
    have step: "finditer p s = finditer (Suc p) r"
      unfolding Cons c by (rule finditer_None [OF match_at_NL])
    show ?thesis
    proof (cases "match_at r")
      case None
      with ld obtain ds w where "r = ds @ [CHR ''.'', w]" "list_all isdigit ds" "isspace w"
        using look_digits_unmatched [of r "[]"] by (auto simp: match_at_def)
      then have "finditer (Suc p) r = []" by (simp add: finditer_unmatched)
      with less.prems(2) step show ?thesis by simp
    next
      case (Some x)
      then obtain n t rest where m: "match_at r = Some (n, t, rest)" by (cases x) auto
      from finditer_Some [OF m, of "Suc p"] obtain pre
        where r: "r = pre @ rest" and ne: "pre \<noteq> []" and la: "lookahead rest"
          and fi: "finditer (Suc p) r = (Suc p, n, t) # finditer (Suc p + length pre) rest"
        by blast
      from less.prems(2) step fi
      consider "st = Suc p" | "(st, num, body) \<in> set (finditer (Suc p + length pre) rest)"
        by auto
      then show ?thesis
      proof cases
        case 1
        then show ?thesis using Cons c r ne by simp
      next
        case 2
        have "length rest < length s" using r Cons by simp
        from less.hyps [OF this la 2]
        have a: "Suc p + length pre < st" and b: "st < Suc p + length pre + length rest"
          and n: "rest ! (st - (Suc p + length pre) - 1) = NL" by simp_all
        define j where "j = st - (Suc p + length pre) - 1"
        have "st - p - 1 = Suc (length pre + j)"
          using a by (simp add: j_def)
        moreover have "s ! Suc (length pre + j) = rest ! j"
          unfolding Cons r by (simp only: nth_Cons_Suc nth_append_length_plus)
        ultimately have "s ! (st - p - 1) = rest ! (st - (Suc p + length pre) - 1)"
          by (simp add: j_def)
        with a b n show ?thesis by (simp add: Cons r)
      qed
    qed
  qed
qed

lemma finditer_later:
  "finditer p s = m # ms \<Longrightarrow> (st, num, body) \<in> set ms
   \<Longrightarrow> p < st \<and> st < p + length s \<and> s ! (st - p - 1) = NL"
proof (induction s arbitrary: p)
  case Nil
  then show ?case by (simp add: finditer_Nil)
next
  case (Cons c r)
  show ?case
  proof (cases "match_at (c # r)")
    case None
    with Cons.prems(1) have "finditer (Suc p) r = m # ms" by (simp add: finditer_None)
    from Cons.IH [OF this Cons.prems(2)]
    have a: "Suc p < st" and b: "st < Suc p + length r" and n: "r ! (st - Suc p - 1) = NL"
      by simp_all
    have "st - p - 1 = Suc (st - Suc p - 1)" using a by simp
    then have "(c # r) ! (st - p - 1) = r ! (st - Suc p - 1)" by simp
    with a b n show ?thesis by simp
  next
    case (Some x)
    then obtain n t rest where m: "match_at (c # r) = Some (n, t, rest)" by (cases x) auto
    from finditer_Some [OF m, of p] obtain pre
      where s: "c # r = pre @ rest" and ne: "pre \<noteq> []" and la: "lookahead rest"
        and fi: "finditer p (c # r) = (p, n, t) # finditer (p + length pre) rest"
      by blast
    from Cons.prems fi have "(st, num, body) \<in> set (finditer (p + length pre) rest)" by simp
    from finditer_after_look [OF la this]
    have a: "p + length pre < st" and b: "st < p + length pre + length rest"
      and n: "rest ! (st - (p + length pre) - 1) = NL" by simp_all
    define j where "j = st - (p + length pre) - 1"
    have "st - p - 1 = length pre + j" using a by (simp add: j_def)
    moreover have "(pre @ rest) ! (length pre + j) = rest ! j"
      by (simp only: nth_append_length_plus)
    ultimately have "(pre @ rest) ! (st - p - 1) = rest ! (st - (p + length pre) - 1)"
      by (simp add: j_def)
    with a b n have "p < st \<and> st < p + length (pre @ rest) \<and> (pre @ rest) ! (st - p - 1) = NL"
      by simp
    then show ?thesis unfolding s [symmetric] .
  qed
qed

lemma finditer_findall: "map snd (finditer p s) = findall s"
proof (induction "length s" arbitrary: s p rule: less_induct)
  case less
  show ?case
  proof (cases "match_at s")
    case None
    show ?thesis
    proof (cases s)
      case Nil
      then show ?thesis by (simp add: finditer_Nil findall_Nil)
    next
      case (Cons c r)
      then have "length r < length s" by simp
      from less.hyps [OF this, of "Suc p"] None show ?thesis
        by (simp add: Cons finditer_None findall_None)
    qed
  next
    case (Some x)
    then obtain n t rest where m: "match_at s = Some (n, t, rest)" by (cases x) auto
    from finditer_Some [OF m, of p] obtain pre :: string
      where fi: "finditer p s = (p, n, t) # finditer (p + length pre) rest" by blast
    from match_at_suffix [OF m] have "length rest < length s" .
    from less.hyps [OF this, of "p + length pre"] show ?thesis
      by (simp add: fi findall_Some [OF m])
  qed
qed

lemma match_at_look: "match_at s = Some (n, t, rest) \<Longrightarrow> lookahead rest"
  using finditer_Some [of s n t rest 0] by blast


text \<open>
  Claim C4, as the code has it. The search reports the matches of \<open>findall\<close> with
  their offsets, and every match after the first one starts right after a line break: a
  number with a period and whitespace inside the text of a paragraph that has begun does
  not start a new paragraph unless it is the first thing on its line. The first match
  starts wherever the pattern first matches, which can be in the middle of a line.
\<close>

theorem C4_line_initial_after_first:
  assumes "finditer 0 content = m # ms" and "(st, num, body) \<in> set ms"
  shows "0 < st \<and> st < length content \<and> content ! (st - 1) = NL
         \<and> map snd (finditer 0 content) = findall content"
  using finditer_later [OF assms] finditer_findall [of 0 content] by simp

theorem C4_line_initial_after_first_witness:
  "finditer 0 (''Intro 1. first'' @ [NL] @ ''2. second 3. same'' @ [NL] @ ''4. fourth'')
   = [(6, ''1'', ''first''), (15, ''2'', ''second 3. same''), (33, ''4'', ''fourth'')]
   \<and> (''Intro 1. first'' @ [NL] @ ''2. second 3. same'' @ [NL] @ ''4. fourth'') ! (15 - 1) = NL"
proof -
  let ?c = "''Intro 1. first'' @ [NL] @ ''2. second 3. same'' @ [NL] @ ''4. fourth''"
  have h1: "finditer 0 ?c = (6, ''1'', ''first'')
            # [(15, ''2'', ''second 3. same''), (33, ''4'', ''fourth'')]" by code_simp
  have h2: "(15, ''2'', ''second 3. same'')
            \<in> set [(15 :: nat, ''2'', ''second 3. same''), (33, ''4'', ''fourth'')]" by simp
  from C4_line_initial_after_first [OF h1 h2] h1 show ?thesis by simp
qed

text \<open>
  The claim as stated fails: in a text without line breaks, the number in the middle of
  the sentence starts the only paragraph.
\<close>

theorem C4_counterexample:
  "finditer 0 ''See item 5. Then go'' = [(9, ''5'', ''Then go'')]
   \<and> ''See item 5. Then go'' ! 8 = CHR '' ''
   \<and> NL \<notin> set ''See item 5. Then go''
   \<and> parse_document (Plain ''See item 5. Then go'') = [(5, ''Then go'')]"
  by code_simp


section \<open>Normalised values\<close>

lemma split_acc_words:
  "\<forall>c \<in> set cur. \<not> isspace c \<Longrightarrow> \<forall>w \<in> set (split_acc cur s). is_word w"
proof (induction s arbitrary: cur)
  case Nil
  then show ?case by (simp add: is_word_def)
next
  case (Cons c s)
  have empty: "\<forall>w \<in> set (split_acc [] s). is_word w" by (rule Cons.IH) simp
  show ?case
  proof (cases "isspace c")
    case True
    with empty Cons.prems show ?thesis by (simp add: is_word_def)
  next
    case False
    with Cons.prems have "\<forall>w \<in> set (split_acc (cur @ [c]) s). is_word w"
      by (intro Cons.IH) simp
    with False show ?thesis by simp
  qed
qed

lemma split_ws_words: "\<forall>w \<in> set (split_ws s). is_word w"
  unfolding split_ws_def by (rule split_acc_words) simp

lemma single_spaced_word: "\<forall>c \<in> set w. \<not> isspace c \<Longrightarrow> single_spaced w"
  by (induction w rule: single_spaced.induct) auto

lemma single_spaced_append:
  "\<forall>c \<in> set w. \<not> isspace c \<Longrightarrow> w \<noteq> [] \<Longrightarrow> single_spaced t \<Longrightarrow> t \<noteq> []
   \<Longrightarrow> \<not> isspace (hd t) \<Longrightarrow> single_spaced (w @ CHR '' '' # t)"
proof (induction w rule: single_spaced.induct)
  case 1
  then show ?case by simp
next
  case (2 c)
  then show ?case by (cases t) auto
next
  case (3 c d r)
  then show ?case by auto
qed

lemma collapsed_word: "is_word w \<Longrightarrow> collapsed w"
  by (auto simp: collapsed_def is_word_def trimmed_def single_spaced_word)

lemma collapsed_append:
  assumes "is_word w" and "collapsed t" and "t \<noteq> []"
  shows "collapsed (w @ CHR '' '' # t)"
proof -
  from assms have "single_spaced (w @ CHR '' '' # t)"
    by (intro single_spaced_append) (auto simp: is_word_def collapsed_def trimmed_def)
  moreover from assms have "trimmed (w @ CHR '' '' # t)"
    by (auto simp: is_word_def collapsed_def trimmed_def)
  moreover from assms have "\<forall>c \<in> set (w @ CHR '' '' # t). isspace c \<longrightarrow> c = CHR '' ''"
    by (auto simp: is_word_def collapsed_def)
  ultimately show ?thesis by (simp add: collapsed_def)
qed

lemma join_words_nonempty: "ws \<noteq> [] \<Longrightarrow> \<forall>w \<in> set ws. is_word w \<Longrightarrow> join_str sep ws \<noteq> []"
  by (induction sep ws rule: join_str.induct) (auto simp: is_word_def)

lemma collapsed_join: "\<forall>w \<in> set ws. is_word w \<Longrightarrow> collapsed (join_str '' '' ws)"
proof (induction "'' ''" ws rule: join_str.induct)
  case 1
  show ?case by (simp add: collapsed_def trimmed_def)
next
  case (2 x)
  then show ?case by (simp add: collapsed_word)
next
  case (3 x y xs)
  then have "collapsed (join_str '' '' (y # xs))" by simp
  moreover from 3 have "join_str '' '' (y # xs) \<noteq> []"
    by (intro join_words_nonempty) auto
  moreover from 3 have "is_word x" by simp
  ultimately show ?case using collapsed_append [of x "join_str '' '' (y # xs)"] by simp
qed

lemma collapsed_clean_text: "collapsed (clean_text t)"
  unfolding clean_text_def by (rule collapsed_join) (rule split_ws_words)



lemma set_update_cases:
  "(k', v') \<in> set (AList.update k v d) \<Longrightarrow> (k', v') = (k, v) \<or> (k', v') \<in> set d"
  by (induction d) (auto split: if_splits)

lemma numbered_loop_values:
  "(k, v) \<in> set (numbered_loop ms d) \<Longrightarrow> (k, v) \<in> set d \<or> (\<exists>t. v = clean_text t)"
proof (induction ms arbitrary: d)
  case Nil
  then show ?case by simp
next
  case (Cons m ms)
  obtain num body where m: "m = (num, body)" by (cases m)
  from Cons.prems have "(k, v) \<in> set (numbered_loop ms (AList.update (py_int num) (clean_text body) d))"
    by (simp add: m)
  from Cons.IH [OF this] show ?case by (auto dest: set_update_cases)
qed




text \<open>
  Claim C1. On text in the numbered format the scan finds exactly the paragraphs of the
  text: each match is the number of a paragraph and its body up to the next paragraph or
  the end of the text, across the line breaks inside the body. The result maps each
  number to the normalised body of the last paragraph that carries it; every value in it
  is whitespace-collapsed; and when the numbers differ it is the dictionary of the
  paragraphs in document order. The text \<open>1. A\<newline>2. B\<newline>3. C\<close> yields
  \<open>{1: A, 2: B, 3: C}\<close>.
\<close>

theorem C1_numbered_scan:
  assumes "items \<noteq> []" and "list_all well_formed_item items"
    and "content_of src = numbered_text items"
  shows "findall (content_of src) = map item_match items
         \<and> map_of (parse_document src) = map_of (rev (map item_entry items))
         \<and> (\<forall>(k, v) \<in> set (parse_document src). collapsed v)
         \<and> (distinct (map fst (map item_entry items))
              \<longrightarrow> parse_document src = map item_entry items)"
proof -
  have fa: "findall (content_of src) = map item_match items"
    using assms by (simp add: findall_numbered_text)
  have ent: "map entry_of (map item_match items) = map item_entry items"
    by (simp add: entry_of_item_match)
  have pd: "parse_document src = numbered_loop (map item_match items) []"
    using fa assms(1) by (simp add: parse_document_def)
  have "map_of (parse_document src) = map_of (rev (map item_entry items))"
    unfolding pd map_of_numbered_loop ent by simp
  moreover have "parse_document src = map item_entry items"
    if "distinct (map fst (map item_entry items))"
    using numbered_loop_fresh [of "map item_match items" "[]"] that
    unfolding pd ent by simp
  moreover have "collapsed v" if "(k, v) \<in> set (parse_document src)" for k v
    using numbered_loop_values [of k v "map item_match items" "[]"] that
    unfolding pd by (auto simp: collapsed_clean_text)
  ultimately show ?thesis using fa by blast
qed

theorem C1_numbered_scan_witness:
  "parse_document (Plain (''1. A'' @ [NL] @ ''2. B'' @ [NL] @ ''3. C''))
   = [(1, ''A''), (2, ''B''), (3, ''C'')]
   \<and> parse_document (Plain (''12. A  b'' @ [NL] @ '' c'' @ [NL] @ ''3.5 m'' @ [NL, NL]
                            @ ''007.'' @ [NL] @ ''d''))
     = [(12, ''A b c 3.5 m''), (7, ''d'')]
   \<and> collapsed ''A b c 3.5 m''"
proof -
  let ?items = "[(''1'', '' '', ''A''), (''2'', '' '', ''B''), (''3'', '' '', ''C'')]"
  let ?src = "Plain (''1. A'' @ [NL] @ ''2. B'' @ [NL] @ ''3. C'')"
  have h1: "?items \<noteq> []" by simp
  have h2: "list_all well_formed_item ?items" by code_simp
  have h3: "content_of ?src = numbered_text ?items" by code_simp
  have h4: "distinct (map fst (map item_entry ?items))" by code_simp
  have h5: "map item_entry ?items = [(1, ''A''), (2, ''B''), (3, ''C'')]" by code_simp
  from C1_numbered_scan [OF h1 h2 h3] h4 h5
  have first: "parse_document ?src = [(1, ''A''), (2, ''B''), (3, ''C'')]" by simp
  let ?items2 = "[(''12'', '' '', ''A  b'' @ [NL] @ '' c'' @ [NL] @ ''3.5 m'' @ [NL]),
                  (''007'', [NL], ''d'')]"
  let ?src2 = "Plain (''12. A  b'' @ [NL] @ '' c'' @ [NL] @ ''3.5 m'' @ [NL, NL]
                      @ ''007.'' @ [NL] @ ''d'')"
  have g1: "?items2 \<noteq> []" by simp
  have g2: "list_all well_formed_item ?items2" by code_simp
  have g3: "content_of ?src2 = numbered_text ?items2" by code_simp
  have g4: "distinct (map fst (map item_entry ?items2))" by code_simp
  have g5: "map item_entry ?items2 = [(12, ''A b c 3.5 m''), (7, ''d'')]" by code_simp
  from C1_numbered_scan [OF g1 g2 g3] g4 g5
  have second: "parse_document ?src2 = [(12, ''A b c 3.5 m''), (7, ''d'')]"
    and all: "\<forall>(k, v) \<in> set (parse_document ?src2). collapsed v" by simp_all
  have run: "parse_document ?src2 = [(12, ''A b c 3.5 m''), (7, ''d'')]" by code_simp
  from all run have "collapsed ''A b c 3.5 m''" by simp
  with first second show ?thesis by simp
qed





section \<open>Prompt generation: failures and the cap\<close>

lemma prompts_loop_map:
  "distinct (map fst items) \<Longrightarrow> fst ` set items \<inter> fst ` set results = {}
   \<Longrightarrow> prompts_loop service key url name i items results
       = results @ map (\<lambda>(j, num, body). (num, item_result service key url name j body))
                       (enumerate i items)"
proof (induction items arbitrary: i results)
  case Nil
  show ?case by simp
next
  case (Cons it items)
  obtain num body where it: "it = (num, body)" by (cases it)
  let ?v = "item_result service key url name i body"
  let ?r = "results @ [(num, ?v)]"
  from Cons.prems(2) have fresh: "num \<notin> fst ` set results" by (auto simp: it)
  have step: "prompts_loop service key url name i ((num, body) # items) results
              = prompts_loop service key url name (Suc i) items ?r"
    by (simp add: update_fresh [OF fresh] item_result_def try_body_def split: reply.splits)
  from Cons.prems have d: "distinct (map fst items)" and n: "num \<notin> fst ` set items"
    by (auto simp: it)
  from Cons.prems(2) n have disj: "fst ` set items \<inter> fst ` set ?r = {}" by auto
  have "prompts_loop service key url name i (it # items) results
        = prompts_loop service key url name (Suc i) items ?r"
    unfolding it by (rule step)
  also have "\<dots> = ?r @ map (\<lambda>(j, num, body). (num, item_result service key url name j body))
                           (enumerate (Suc i) items)"
    by (rule Cons.IH [OF d disj])
  also have "\<dots> = results @ map (\<lambda>(j, num, body). (num, item_result service key url name j body))
                                 (enumerate i (it # items))"
    by (simp add: it)
  finally show ?case .
qed

lemma distinct_capped: "distinct (map fst paragraphs) \<Longrightarrow> distinct (map fst (capped_items paragraphs cap))"
  by (auto simp: capped_items_def slice_to_def take_map [symmetric] split: option.splits)

lemma generate_map:
  assumes "distinct (map fst paragraphs)"
  shows "generate_video_prompts service paragraphs key url name cap
         = map (\<lambda>(j, num, body). (num, item_result service key url name j body))
               (enumerate 0 (capped_items paragraphs cap))"
  using prompts_loop_map [OF distinct_capped [OF assms], of cap "[]" service key url name 0]
  by (simp add: generate_video_prompts_def)

lemma map_fst_generate:
  assumes "distinct (map fst paragraphs)"
  shows "map fst (generate_video_prompts service paragraphs key url name cap)
         = map fst (capped_items paragraphs cap)"
proof -
  have "map fst (map (\<lambda>(j, num, body). (num, item_result service key url name j body))
                 (enumerate i items)) = map fst items" for i and items :: "(int \<times> string) list"
    by (induction items arbitrary: i) auto
  then show ?thesis by (simp only: generate_map [OF assms])
qed


text \<open>
  Claim C6. Every item that is processed gets a result, whatever happens to the requests
  of the other items: when the request of an item fails, its result is the error marker
  built from the exception, and otherwise it is the trimmed prompt. The function returns a
  dictionary in every case. When the request for key 2 fails and the one for key 1
  succeeds, the result holds the prompt under 1 and an error marker under 2.
\<close>

theorem C6_failure_isolated:
  assumes "distinct (map fst paragraphs)"
    and "i < length (capped_items paragraphs cap)"
    and "capped_items paragraphs cap ! i = (num, paragraph_text)"
  shows "map_of (generate_video_prompts service paragraphs key url name cap) num
         = Some (case service i (build_request key url name paragraph_text) of
                   Raised e \<Rightarrow> ''ERROR: '' @ e
                 | Content c \<Rightarrow> strip c)
         \<and> map fst (generate_video_prompts service paragraphs key url name cap)
           = map fst (capped_items paragraphs cap)"
proof -
  let ?items = "capped_items paragraphs cap"
  let ?f = "\<lambda>(j, num, body). (num, item_result service key url name j body)"
  let ?r = "generate_video_prompts service paragraphs key url name cap"
  have r: "?r = map ?f (enumerate 0 ?items)" by (rule generate_map [OF assms(1)])
  have keys: "map fst ?r = map fst ?items" by (rule map_fst_generate [OF assms(1)])
  then have d: "distinct (map fst ?r)" using distinct_capped [OF assms(1)] by simp
  have "?r ! i = ?f (enumerate 0 ?items ! i)" using assms(2) by (simp add: r)
  also have "\<dots> = (num, item_result service key url name i paragraph_text)"
    using assms(2,3) by (simp add: nth_enumerate_eq)
  finally have "(num, item_result service key url name i paragraph_text) \<in> set ?r"
    using assms(2) r by (metis length_enumerate length_map nth_mem)
  with d have "map_of ?r num = Some (item_result service key url name i paragraph_text)"
    by simp
  with keys show ?thesis by (simp add: item_result_def)
qed

theorem C6_failure_isolated_witness:
  "generate_video_prompts failing_second [(1, ''Dawn breaks.''), (2, ''Soldiers gather.'')]
     ''key'' [] ''Video Prompt Generator'' None
   = [(1, ''PROMPT_A''), (2, ''ERROR: APIError()'')]"
proof -
  let ?ps = "[(1, ''Dawn breaks.''), (2, ''Soldiers gather.'')] :: pydict"
  have h1: "distinct (map fst ?ps)" by simp
  have h2: "1 < length (capped_items ?ps None)" by (simp add: capped_items_def)
  have h3: "capped_items ?ps None ! 1 = (2, ''Soldiers gather.'')" by (simp add: capped_items_def)
  have "generate_video_prompts failing_second ?ps ''key'' [] ''Video Prompt Generator'' None
        = [(1, ''PROMPT_A''), (2, ''ERROR: APIError()'')]" by code_simp
  with C6_failure_isolated [OF h1 h2 h3, of failing_second "''key''" "[]" "''Video Prompt Generator''"]
  show ?thesis by simp
qed


text \<open>
  Claim C7, as the code has it. The result never has more entries than the collection.
  A positive cap \<open>N\<close> selects the first \<open>min N size\<close> entries in iteration order.
  Without a cap, and with the cap 0, every entry is processed.
\<close>

theorem C7_cap:
  assumes "distinct (map fst paragraphs)"
  shows "length (generate_video_prompts service paragraphs key url name cap) \<le> length paragraphs
         \<and> (cap = None \<or> cap = Some 0 \<longrightarrow>
              map fst (generate_video_prompts service paragraphs key url name cap)
              = map fst paragraphs)
         \<and> (\<forall>n. cap = Some n \<and> 0 < n \<longrightarrow>
              map fst (generate_video_prompts service paragraphs key url name cap)
              = take (nat n) (map fst paragraphs)
              \<and> length (generate_video_prompts service paragraphs key url name cap)
                = min (nat n) (length paragraphs))"
proof -
  let ?r = "generate_video_prompts service paragraphs key url name cap"
  have keys: "map fst ?r = map fst (capped_items paragraphs cap)"
    by (rule map_fst_generate [OF assms])
  then have len: "length ?r = length (capped_items paragraphs cap)"
    by (metis length_map)
  have "length (capped_items paragraphs cap) \<le> length paragraphs"
    by (auto simp: capped_items_def slice_to_def split: option.splits)
  moreover have "capped_items paragraphs cap = paragraphs" if "cap = None \<or> cap = Some 0"
    using that by (auto simp: capped_items_def)
  moreover have "capped_items paragraphs cap = take (nat n) paragraphs" if "cap = Some n" "0 < n" for n
    using that by (simp add: capped_items_def slice_to_def)
  ultimately show ?thesis using keys len by (auto simp: take_map)
qed

theorem C7_cap_witness:
  "generate_video_prompts echo
     (parse_document (Plain (''1. Dawn breaks over stone towers.'' @ [NL, NL]
                             @ ''2. Soldiers gather firewood.'')))
     ''key'' [] [] (Some 1) = [(1, ''PROMPT_A'')]"
proof -
  let ?ps = "parse_document (Plain (''1. Dawn breaks over stone towers.'' @ [NL, NL]
                                    @ ''2. Soldiers gather firewood.''))"
  have ps: "?ps = [(1, ''Dawn breaks over stone towers.''), (2, ''Soldiers gather firewood.'')]"
    by code_simp
  have h: "distinct (map fst ?ps)" unfolding ps by simp
  have "generate_video_prompts echo ?ps ''key'' [] [] (Some 1) = [(1, ''PROMPT_A'')]"
    unfolding ps by code_simp
  with C7_cap [OF h, of echo "''key''" "[]" "[]" "Some 1"] show ?thesis by simp
qed

text \<open>
  The claim as stated fails for the cap 0: both paragraphs are processed, not the first
  \<open>min 0 2\<close> of them.
\<close>

theorem C7_counterexample:
  "map fst (generate_video_prompts echo
              [(1, ''Dawn breaks over stone towers.''), (2, ''Soldiers gather firewood.'')]
              ''key'' [] [] (Some 0)) = [1, 2]
   \<and> take (min (nat 0) (length [(1 :: int, ''Dawn breaks over stone towers.''),
                                  (2, ''Soldiers gather firewood.'')]))
          (map fst [(1 :: int, ''Dawn breaks over stone towers.''),
                    (2, ''Soldiers gather firewood.'')]) = []"
  by code_simp


section \<open>The result writers and the entry point\<close>

lemma map_insort_key: "map f (insort_key f x xs) = insort (f x) (map f xs)"
  by (induction xs) auto

lemma map_sort_key: "map f (sort_key f xs) = sort (map f xs)"
  by (induction xs) (auto simp: map_insort_key)

lemma write_blocks_entries:
  "\<forall>e \<in> set es. map_of results (fst e) = Some (snd e)
   \<Longrightarrow> write_blocks results (map fst es) f
       = (f @ concat (map (\<lambda>e. txt_block (fst e) (snd e)) es), None)"
  by (induction es arbitrary: f) auto

lemma write_rows_entries:
  "\<forall>e \<in> set es. map_of results (fst e) = Some (snd e)
   \<Longrightarrow> write_rows results (map fst es) f
       = (f @ concat (map (\<lambda>e. csv_row [str_int (fst e), snd e]) es), None)"
  by (induction es arbitrary: f) auto


lemma digit_char: "k < 10 \<Longrightarrow> 48 \<le> (of_char (char_of (48 + k) :: char) :: nat)" for k :: nat
  by simp

lemma str_nat_chars: "\<forall>c \<in> set (str_nat n). 48 \<le> (of_char c :: nat)"
proof (induction n rule: str_nat.induct)
  case (1 n)
  show ?case
  proof (cases "n < 10")
    case True
    then show ?thesis by (subst str_nat.simps) (simp add: digit_char)
  next
    case False
    have "n mod 10 < 10" by simp
    from digit_char [OF this] "1.IH" [OF False] False show ?thesis
      by (subst str_nat.simps) simp
  qed
qed

lemma special_codes:
  "c \<in> set [CHR '','', CHR 0x22, CHR 0x0D, CHR 0x0A] \<Longrightarrow> (of_char c :: nat) < 48"
  by auto

lemma csv_field_str_int: "csv_field (str_int k) = str_int k"
proof -
  have a: "c \<notin> set [CHR '','', CHR 0x22, CHR 0x0D, CHR 0x0A]" if "c \<in> set (str_nat n)" for c n
    using str_nat_chars [of n] that special_codes [of c] by fastforce
  have "\<not> (\<exists>c \<in> set (str_int k). c \<in> set [CHR '','', CHR 0x22, CHR 0x0D, CHR 0x0A])"
  proof (cases "k < 0")
    case True
    then have "set (str_int k) = insert (CHR ''-'') (set (str_nat (nat (- k))))"
      by (simp add: str_int_def)
    then show ?thesis using a [of _ "nat (- k)"] by auto
  next
    case False
    then have "str_int k = str_nat (nat k)" by (simp add: str_int_def)
    then show ?thesis using a [of _ "nat k"] by auto
  qed
  then show ?thesis unfolding csv_field_def by (simp only: if_False)
qed

text \<open>
  Claim C8. Both writers go through the keys in ascending numeric order, whatever the
  order in which the dictionary holds them, and write one block, respectively one row, for
  each entry. The report is the banner followed, for each entry in the order of the keys,
  by the line \<open>PARAGRAPH\<close> with the number, a line of 80 dashes, the result text and an
  empty line. The export is the header row followed, for each entry in the order of the
  keys, by the row of the number and the result text.
\<close>

theorem C8_ascending_order:
  assumes "distinct (map fst results)"
  shows "save_results_txt results txt_file now w
         = (w\<lparr>files := (files w)(txt_file \<mapsto>
                TextFile (banner now
                          @ concat (map (\<lambda>e. ''PARAGRAPH '' @ str_int (fst e) @ [NL]
                                              @ replicate 80 (CHR ''-'') @ [NL]
                                              @ snd e @ [NL, NL])
                                        (sort_key fst results))))\<rparr>,
            None)
         \<and> save_results_csv results csv_file w
           = (w\<lparr>files := (files w)(csv_file \<mapsto>
                  TextFile (''Paragraph Number,Video Prompt'' @ [CHR 0x0D, NL]
                            @ concat (map (\<lambda>e. str_int (fst e) @ '','' @ csv_field (snd e)
                                                @ [CHR 0x0D, NL])
                                          (sort_key fst results))))\<rparr>,
              None)
         \<and> sorted (map fst (sort_key fst results))
         \<and> distinct (map fst (sort_key fst results))
         \<and> set (sort_key fst results) = set results"
proof -
  let ?es = "sort_key fst results"
  have keys: "sort (map fst results) = map fst ?es" by (simp add: map_sort_key)
  have look: "\<forall>e \<in> set ?es. map_of results (fst e) = Some (snd e)"
    using assms by simp
  have header: "csv_row [''Paragraph Number'', ''Video Prompt'']
                = ''Paragraph Number,Video Prompt'' @ [CHR 0x0D, NL]" by code_simp
  have block: "txt_block (fst e) (snd e)
               = ''PARAGRAPH '' @ str_int (fst e) @ [NL] @ replicate 80 (CHR ''-'') @ [NL]
                 @ snd e @ [NL, NL]" for e :: "int \<times> string"
    by (simp add: txt_block_def dashes80_def)
  have row: "csv_row [str_int (fst e), snd e]
             = str_int (fst e) @ '','' @ csv_field (snd e) @ [CHR 0x0D, NL]"
    for e :: "int \<times> string"
    by (simp add: csv_row_def csv_field_str_int NL_def)
  have "distinct (map fst ?es)" using assms by (simp add: map_sort_key)
  then show ?thesis
    unfolding save_results_txt_def save_results_csv_def keys
      write_blocks_entries [OF look] write_rows_entries [OF look] header block row
    by simp
qed

theorem C8_ascending_order_witness:
  "files (fst (save_results_txt [(10, ''B, '' @ [CHR 0x22] @ ''x'' @ [CHR 0x22]), (2, ''A'')]
                 ''out.txt'' ''2026-01-01 00:00:00'' w_empty)) ''out.txt''
   = Some (TextFile
       (''================================================================================''
        @ [NL] @ ''VIDEO PROMPTS GENERATED'' @ [NL] @ ''Date: 2026-01-01 00:00:00'' @ [NL]
        @ ''================================================================================''
        @ [NL, NL]
        @ ''PARAGRAPH 2'' @ [NL]
        @ ''--------------------------------------------------------------------------------''
        @ [NL] @ ''A'' @ [NL, NL]
        @ ''PARAGRAPH 10'' @ [NL]
        @ ''--------------------------------------------------------------------------------''
        @ [NL] @ ''B, '' @ [CHR 0x22] @ ''x'' @ [CHR 0x22] @ [NL, NL]))
   \<and> files (fst (save_results_csv [(10, ''B, '' @ [CHR 0x22] @ ''x'' @ [CHR 0x22]), (2, ''A'')]
                   ''out.csv'' w_empty)) ''out.csv''
     = Some (TextFile
         (''Paragraph Number,Video Prompt'' @ [CHR 0x0D, NL]
          @ ''2,A'' @ [CHR 0x0D, NL]
          @ ''10,'' @ [CHR 0x22] @ ''B, '' @ [CHR 0x22, CHR 0x22] @ ''x'' @ [CHR 0x22, CHR 0x22]
          @ [CHR 0x22] @ [CHR 0x0D, NL]))"
proof -
  let ?r = "[(10 :: int, ''B, '' @ [CHR 0x22] @ ''x'' @ [CHR 0x22]), (2, ''A'')]"
  have h: "distinct (map fst ?r)" by simp
  have s: "sort_key fst ?r = [(2, ''A''), (10, ''B, '' @ [CHR 0x22] @ ''x'' @ [CHR 0x22])]"
    by simp
  have n2: "str_int 2 = ''2''" by code_simp
  have n10: "str_int 10 = ''10''" by code_simp
  have b: "banner ''2026-01-01 00:00:00''
           = ''================================================================================''
             @ [NL] @ ''VIDEO PROMPTS GENERATED'' @ [NL] @ ''Date: 2026-01-01 00:00:00'' @ [NL]
             @ ''================================================================================''
             @ [NL, NL]" by code_simp
  have d: "replicate 80 (CHR ''-'')
           = ''--------------------------------------------------------------------------------''"
    by code_simp
  from C8_ascending_order [OF h, of "''out.txt''" "''2026-01-01 00:00:00''" w_empty "''out.csv''"]
  show ?thesis unfolding s b by (simp add: n2 n10 csv_field_def d)
qed

text \<open>
  Claim C9. With an empty credential the run prints the five lines of the instruction and
  stops: the file system is unchanged, so no output file is created or written, no file
  has been opened for reading and no request has been sent.
\<close>

theorem C9_missing_credential:
  assumes "OPENROUTER_API_KEY cfg = []"
  shows "main cfg service version now w
         = (w\<lparr>console := console w @ [Rule, MsgNoApiKey, Rule, MsgSetEnvVar, Rule]\<rparr>, None)
         \<and> files (fst (main cfg service version now w)) = files w
         \<and> reads (fst (main cfg service version now w)) = reads w
         \<and> sent (fst (main cfg service version now w)) = sent w"
  using assms by (simp add: main_def say_def)

theorem C9_missing_credential_witness:
  "main (source_config [] ''Video Prompt Generator'') echo ''3.12'' ''2026-01-01 00:00:00'' w_empty
   = (w_empty\<lparr>console := [Rule, MsgNoApiKey, Rule, MsgSetEnvVar, Rule]\<rparr>, None)"
proof -
  have h: "OPENROUTER_API_KEY (source_config [] ''Video Prompt Generator'') = []"
    by (simp add: source_config_def)
  from C9_missing_credential [OF h, of echo "''3.12''" "''2026-01-01 00:00:00''" w_empty]
  show ?thesis by (simp add: w_empty_def)
qed


text \<open>
  Claim C10. For the empty result collection both writers still create or overwrite
  their file: the report then holds the banner with the time stamp and nothing else, the
  export holds the header row and nothing else.
\<close>

theorem C10_empty_results:
  "save_results_txt [] txt_file now w
   = (w\<lparr>files := (files w)(txt_file \<mapsto>
          TextFile (replicate 80 (CHR ''='') @ [NL] @ ''VIDEO PROMPTS GENERATED'' @ [NL]
                    @ ''Date: '' @ now @ [NL] @ replicate 80 (CHR ''='') @ [NL, NL]))\<rparr>, None)
   \<and> save_results_csv [] csv_file w
     = (w\<lparr>files := (files w)(csv_file \<mapsto>
            TextFile (''Paragraph Number,Video Prompt'' @ [CHR 0x0D, NL]))\<rparr>, None)"
proof -
  have "csv_row [''Paragraph Number'', ''Video Prompt'']
        = ''Paragraph Number,Video Prompt'' @ [CHR 0x0D, NL]" by code_simp
  then show ?thesis
    by (simp add: save_results_txt_def save_results_csv_def banner_def rule80_def)
qed

theorem C10_empty_results_witness:
  "files (fst (save_results_txt [] ''video_prompts.txt'' ''2026-01-01 00:00:00'' w_empty))
     ''video_prompts.txt''
   = Some (TextFile (replicate 80 (CHR ''='') @ [NL] @ ''VIDEO PROMPTS GENERATED'' @ [NL]
                     @ ''Date: 2026-01-01 00:00:00'' @ [NL] @ replicate 80 (CHR ''='') @ [NL, NL]))
   \<and> files (fst (save_results_csv [] ''video_prompts.csv'' w_empty)) ''video_prompts.csv''
     = Some (TextFile (''Paragraph Number,Video Prompt'' @ [CHR 0x0D, NL]))"
  using C10_empty_results [of "''video_prompts.txt''" "''2026-01-01 00:00:00''" w_empty
                              "''video_prompts.csv''"]
  by simp


end
